theory Spec2Isabelle
  imports
    Main
    "HOL-Library.Word"
    "HOL-Library.Char_ord"
    "HOL-Library.List_Lexorder"
    "HOL-Library.Product_Lexorder"
    "HOL-Library.Multiset"
begin

section \<open>Paths and the file system seen by the cache warmer\<close>

text \<open>
  A \<open>pathlib.Path\<close> is its anchor (\<open>''/''\<close>, a drive, or empty for a relative path)
  and its segments. \<open>parts\<close>, \<open>name\<close> and the \<open>/\<close> operator with a plain name are those
  of pathlib; two paths are equal when their parts are (the POSIX flavour).
\<close>

datatype path = Path (anchor: string) (segs: "string list")

definition parts :: "path \<Rightarrow> string list" where
  "parts p = (if anchor p = [] then [] else [anchor p]) @ segs p"

definition name :: "path \<Rightarrow> string" where
  "name p = (if segs p = [] then [] else last (segs p))"

definition joinpath :: "path \<Rightarrow> string \<Rightarrow> path" where
  "joinpath p s = Path (anchor p) (segs p @ [s])"

datatype error =
  FileNotFoundError | PermissionError | OSError | RuntimeError | OverflowError | MemoryError

text \<open>
  An open raw file (\<open>open(path, "rb", buffering=0)\<close>): the bytes from the current offset
  that the device will still deliver, and what follows them: the end of the file, or a
  failing read.
\<close>

datatype ending = Eof | Fails error

record ofile =
  avail :: "8 word list"
  ending :: ending

text \<open>\<open>sys.platform\<close>, as far as the interpreter's reads depend on it.\<close>

datatype platform = Linux | Darwin | Windows

text \<open>
  The answers of the operating system to the calls the program makes. Each field is one
  call; a call that raises answers \<open>Inl\<close>. The fields are independent, as the calls are
  made at different times: a file that is regular when enumerated can fail \<open>stat\<close> later.
  \<open>alloc_max\<close> is the size of the largest \<open>bytes\<close> object the process can allocate.
\<close>

record fs =
  rglob :: "path \<Rightarrow> string \<Rightarrow> path list"
  is_file :: "path \<Rightarrow> error + bool"
  exists :: "path \<Rightarrow> error + bool"
  resolve :: "path \<Rightarrow> error + path"
  stat_size :: "path \<Rightarrow> error + nat"
  open_rb :: "path \<Rightarrow> error + ofile"
  listdir :: "path \<Rightarrow> error + string list"
  is_dir :: "path \<Rightarrow> error + bool"
  platform :: platform
  alloc_max :: nat

section \<open>The cache warm core\<close>

definition DEFAULT_PATTERNS :: "string list" where
  "DEFAULT_PATTERNS =
     [''*.jar'', ''*.zip'', ''*.json'', ''*.cfg'', ''*.toml'', ''*.ini'',
      ''*.mixins.json'', ''*.mcmeta'', ''*.png'', ''*.jpg'', ''*.ogg'', ''*.wav'', ''*.txt'']"

definition SKIP_DIRNAMES :: "string set" where
  "SKIP_DIRNAMES =
     {''.git'', ''.gradle'', ''.idea'', ''logs'', ''crash-reports'', ''screenshots'',
      ''shaderpacks''}"

subsection \<open>iter_files\<close>

text \<open>\<open>any(part in SKIP_DIRNAMES for part in p.parts)\<close>\<close>

definition has_skip_part :: "path \<Rightarrow> bool" where
  "has_skip_part p = (\<exists>part \<in> set (parts p). part \<in> SKIP_DIRNAMES)"

text \<open>\<open>key = (p.resolve() if p.exists() else p)\<close>\<close>

definition file_key :: "fs \<Rightarrow> path \<Rightarrow> error + path" where
  "file_key fs p =
     (case exists fs p of
        Inl e \<Rightarrow> Inl e
      | Inr True \<Rightarrow> resolve fs p
      | Inr False \<Rightarrow> Inr p)"

text \<open>
  The inner loop over the matches of one pattern: the paths yielded and the set \<open>seen\<close>
  afterwards. Every exception raised in the body is caught and the loop continues.
\<close>

fun iter_matches :: "fs \<Rightarrow> path list \<Rightarrow> path set \<Rightarrow> path list \<times> path set" where
  "iter_matches fs [] seen = ([], seen)"
| "iter_matches fs (p # ps) seen =
     (case is_file fs p of
        Inl e \<Rightarrow> iter_matches fs ps seen
      | Inr False \<Rightarrow> iter_matches fs ps seen
      | Inr True \<Rightarrow>
          (case file_key fs p of
             Inl e \<Rightarrow> iter_matches fs ps seen
           | Inr key \<Rightarrow>
               if key \<in> seen then iter_matches fs ps seen
               else if has_skip_part p then iter_matches fs ps (insert key seen)
               else (case iter_matches fs ps (insert key seen) of
                       (ys, seen') \<Rightarrow> (p # ys, seen'))))"

text \<open>The outer loop over the patterns, with \<open>seen\<close> shared by all of them.\<close>

fun iter_patterns :: "fs \<Rightarrow> path \<Rightarrow> string list \<Rightarrow> path set \<Rightarrow> path list" where
  "iter_patterns fs root [] seen = []"
| "iter_patterns fs root (pattern # patterns) seen =
     (case iter_matches fs (rglob fs root pattern) seen of
        (ys, seen') \<Rightarrow> ys @ iter_patterns fs root patterns seen')"

definition iter_files :: "fs \<Rightarrow> path \<Rightarrow> string list \<Rightarrow> path list" where
  "iter_files fs root patterns = iter_patterns fs root patterns {}"

text \<open>All matches of a call in the order the two loops visit them.\<close>

definition all_matches :: "fs \<Rightarrow> path \<Rightarrow> string list \<Rightarrow> path list" where
  "all_matches fs root patterns = concat (map (rglob fs root) patterns)"

subsection \<open>warm_file\<close>

text \<open>\<open>chunk = max(1, int(chunk_mb * 1024 * 1024))\<close>, for an integer \<open>chunk_mb\<close>.\<close>

definition chunk_bytes :: "int \<Rightarrow> int" where
  "chunk_bytes chunk_mb = max 1 (chunk_mb * 1024 * 1024)"

text \<open>
  The limits of \<open>FileIO.read\<close> in a 64-bit CPython: the largest \<open>ssize_t\<close>, and
  \<open>_PY_READ_MAX\<close>, the most one read asks of the system (\<open>INT_MAX\<close> on Windows and
  macOS).
\<close>

definition PY_SSIZE_T_MAX :: int where
  "PY_SSIZE_T_MAX = 9223372036854775807"

definition PY_READ_MAX :: "platform \<Rightarrow> nat" where
  "PY_READ_MAX pf = (case pf of Linux \<Rightarrow> 9223372036854775807 | Darwin \<Rightarrow> 2147483647
                     | Windows \<Rightarrow> 2147483647)"

text \<open>
  \<open>f.read(n)\<close> on the raw file, for \<open>0 \<le> n\<close>. The size is converted to \<open>ssize_t\<close>
  (\<open>OverflowError\<close> when it does not fit) and capped at \<open>_PY_READ_MAX\<close>; a buffer of
  that size is allocated (\<open>MemoryError\<close> when it cannot be); then the read delivers at
  most that many of the bytes still available; once none is left, the empty string at the
  end of the file, or the error of a failing device.
\<close>

definition raw_read :: "fs \<Rightarrow> ofile \<Rightarrow> nat \<Rightarrow> error + (8 word list \<times> ofile)" where
  "raw_read fs f n =
     (if PY_SSIZE_T_MAX < int n then Inl OverflowError
      else
        let m = min n (PY_READ_MAX (platform fs)) in
        if alloc_max fs < m then Inl MemoryError
        else if avail f = [] then (case ending f of Eof \<Rightarrow> Inr ([], f) | Fails e \<Rightarrow> Inl e)
        else Inr (take m (avail f), f\<lparr>avail := drop m (avail f)\<rparr>))"

text \<open>The \<open>while True\<close> loop of \<open>warm_file\<close>.\<close>

function read_loop :: "fs \<Rightarrow> nat \<Rightarrow> ofile \<Rightarrow> nat \<Rightarrow> error + nat" where
  "read_loop fs chunk f total' =
     (case raw_read fs f chunk of
        Inl e \<Rightarrow> Inl e
      | Inr (data, f') \<Rightarrow>
          if data = [] then Inr total' else read_loop fs chunk f' (total' + length data))"
  by pat_completeness auto
termination
  by (relation "measure (\<lambda>(fs, chunk, f, total'). length (avail f))")
     (auto simp: raw_read_def Let_def split: if_splits ending.splits)

declare read_loop.simps [simp del]

definition warm_file :: "fs \<Rightarrow> path \<Rightarrow> int \<Rightarrow> error + nat" where
  "warm_file fs path chunk_mb =
     (case stat_size fs path of
        Inl e \<Rightarrow> Inl e
      | Inr sz \<Rightarrow>
          (case open_rb fs path of
             Inl e \<Rightarrow> Inl e
           | Inr f \<Rightarrow> read_loop fs (nat (chunk_bytes chunk_mb)) f 0))"

subsection \<open>The sort key of the worker\<close>

text \<open>\<open>str.lower\<close> and \<open>str.endswith\<close>, on ASCII letters.\<close>

definition upper_letters :: string where
  "upper_letters = ''ABCDEFGHIJKLMNOPQRSTUVWXYZ''"

definition lower_letters :: string where
  "lower_letters = ''abcdefghijklmnopqrstuvwxyz''"

definition lower_char :: "char \<Rightarrow> char" where
  "lower_char c = (case map_of (zip upper_letters lower_letters) c of Some d \<Rightarrow> d | None \<Rightarrow> c)"

definition lower :: "string \<Rightarrow> string" where
  "lower s = map lower_char s"

definition endswith :: "string \<Rightarrow> string \<Rightarrow> bool" where
  "endswith s suf = (length suf \<le> length s \<and> drop (length s - length suf) s = suf)"

definition weight :: "path \<Rightarrow> nat" where
  "weight p =
     (let nm = lower (name p) in
      if endswith nm ''.jar'' then 0
      else if endswith nm ''.zip'' then 1
      else if endswith nm ''.json'' \<or> endswith nm ''.toml'' \<or> endswith nm ''.cfg''
              \<or> endswith nm ''.ini'' then 2
      else if endswith nm ''.png'' \<or> endswith nm ''.ogg'' \<or> endswith nm ''.wav'' then 3
      else 4)"

text \<open>\<open>lambda p: (weight(p), -p.stat().st_size)\<close>; \<open>stat\<close> can raise.\<close>

definition sort_key_of :: "fs \<Rightarrow> path \<Rightarrow> error + (nat \<times> int)" where
  "sort_key_of fs p =
     (case stat_size fs p of Inl e \<Rightarrow> Inl e | Inr sz \<Rightarrow> Inr (weight p, - int sz))"

text \<open>
  \<open>list.sort(key=...)\<close> computes the key of every element first, in order; the first
  exception propagates. Then it sorts the elements by their keys, stably; tuples compare
  lexicographically. \<open>sort_key\<close> is the stable sort of the HOL library.
\<close>

fun keys_of :: "fs \<Rightarrow> path list \<Rightarrow> error + (nat \<times> int) list" where
  "keys_of fs [] = Inr []"
| "keys_of fs (p # ps) =
     (case sort_key_of fs p of
        Inl e \<Rightarrow> Inl e
      | Inr k \<Rightarrow> (case keys_of fs ps of Inl e \<Rightarrow> Inl e | Inr ks \<Rightarrow> Inr (k # ks)))"

definition sort_files :: "fs \<Rightarrow> path list \<Rightarrow> error + path list" where
  "sort_files fs files =
     (case keys_of fs files of
        Inl e \<Rightarrow> Inl e
      | Inr ks \<Rightarrow> Inr (map snd (sort_key fst (zip ks files))))"

text \<open>
  For the statements below: the suffix test on the lower-cased name, and the key of a file
  whose size is \<open>sz p\<close>.
\<close>

definition has_suffix :: "path \<Rightarrow> string \<Rightarrow> bool" where
  "has_suffix p suf = endswith (lower (name p)) suf"

definition rank_key :: "(path \<Rightarrow> nat) \<Rightarrow> path \<Rightarrow> nat \<times> int" where
  "rank_key sz p = (weight p, - int (sz p))"

subsection \<open>The worker of a warm session\<close>

text \<open>
  The lines of the log, with the numbers they print: \<open>Plan i n fpath size\<close>,
  \<open>Warmed i fpath rb warmed_total\<close>, \<open>FileError i fpath e\<close>, \<open>Done t warmed\<close>,
  \<open>AllDone warmed_total\<close> (the summary; its elapsed time is left out).
\<close>

datatype event =
    Start path
  | Plan nat nat path nat
  | HitLimit
  | Warmed nat path nat nat
  | FileError nat path error
  | Done path nat
  | AllDone nat

text \<open>
  The variables of the worker. \<open>clock\<close> counts the reads of \<open>self._stop_flag\<close> made so
  far: the flag is written by the other thread, so what a read sees is given by a function
  of the number of the read.
\<close>

record session =
  warmed_total :: nat
  warmed :: nat
  progressed :: nat
  progress_max :: nat
  logged :: "event list"
  clock :: nat

definition read_stop_flag :: "(nat \<Rightarrow> bool) \<Rightarrow> session \<Rightarrow> bool \<times> session" where
  "read_stop_flag flag s = (flag (clock s), s\<lparr>clock := Suc (clock s)\<rparr>)"

definition append_log :: "event \<Rightarrow> session \<Rightarrow> session" where
  "append_log e s = s\<lparr>logged := logged s @ [e]\<rparr>"

text \<open>\<open>enumerate(files, 1)\<close>\<close>

definition enumerate1 :: "'a list \<Rightarrow> (nat \<times> 'a) list" where
  "enumerate1 xs = zip [1 ..< Suc (length xs)] xs"

text \<open>
  The loop over the files of one target. \<open>None\<close>: the loop ended or was left by
  \<open>break\<close>; \<open>Some e\<close>: \<open>fpath.stat()\<close> raised \<open>e\<close>, which nothing catches.
\<close>

fun warm_files ::
  "fs \<Rightarrow> (nat \<Rightarrow> bool) \<Rightarrow> bool \<Rightarrow> int \<Rightarrow> nat \<Rightarrow> (nat \<times> path) list \<Rightarrow> session
     \<Rightarrow> error option \<times> session" where
  "warm_files fs flag dry budget n [] s = (None, s)"
| "warm_files fs flag dry budget n ((i, fpath) # rest) s =
     (case read_stop_flag flag s of
        (True, s1) \<Rightarrow> (None, s1)
      | (False, s1) \<Rightarrow>
          (case stat_size fs fpath of
             Inl e \<Rightarrow> (Some e, s1)
           | Inr sz \<Rightarrow>
               if dry then
                 warm_files fs flag dry budget n rest (append_log (Plan i n fpath sz) s1)
               else if budget \<le> int (warmed_total s1) then (None, append_log HitLimit s1)
               else
                 (case warm_file fs fpath 16 of
                    Inr rb \<Rightarrow>
                      let s2 = s1\<lparr>warmed := warmed s1 + rb,
                                  warmed_total := warmed_total s1 + rb\<rparr>;
                          s3 = append_log (Warmed i fpath rb (warmed_total s2)) s2
                      in warm_files fs flag dry budget n rest
                           (s3\<lparr>progressed := progressed s3 + 1 + 1\<rparr>)
                  | Inl e \<Rightarrow>
                      let s2 = append_log (FileError i fpath e) s1
                      in warm_files fs flag dry budget n rest
                           (s2\<lparr>progressed := progressed s2 + 1\<rparr>))))"

text \<open>
  The loop over the targets. \<open>Some e\<close>: an exception left the loop (from the sort key
  or from the loop over the files).
\<close>

fun warm_targets ::
  "fs \<Rightarrow> (nat \<Rightarrow> bool) \<Rightarrow> bool \<Rightarrow> int \<Rightarrow> path list \<Rightarrow> session \<Rightarrow> error option \<times> session" where
  "warm_targets fs flag dry budget [] s = (None, s)"
| "warm_targets fs flag dry budget (t # ts) s =
     (case read_stop_flag flag s of
        (True, s1) \<Rightarrow> (None, s1)
      | (False, s1) \<Rightarrow>
          (let s2 = append_log (Start t) s1 in
           case sort_files fs (iter_files fs t DEFAULT_PATTERNS) of
             Inl e \<Rightarrow> (Some e, s2)
           | Inr files \<Rightarrow>
               (case warm_files fs flag dry budget (length files) (enumerate1 files)
                       (s2\<lparr>warmed := 0\<rparr>) of
                  (Some e, s3) \<Rightarrow> (Some e, s3)
                | (None, s3) \<Rightarrow>
                    warm_targets fs flag dry budget ts (append_log (Done t (warmed s3)) s3))))"

text \<open>
  The worker: \<open>budget\<close> is \<open>int(limit_gb * 1024 * 1024 * 1024)\<close>. \<open>Completed\<close>: the
  summary was logged; \<open>Raised e\<close>: the exception \<open>e\<close> ended the thread before it.
\<close>

datatype outcome = Completed | Raised error

definition worker ::
  "fs \<Rightarrow> (nat \<Rightarrow> bool) \<Rightarrow> bool \<Rightarrow> int \<Rightarrow> path list \<Rightarrow> outcome \<times> session" where
  "worker fs flag dry budget targets =
     (let total_files = sum_list (map (\<lambda>t. length (iter_files fs t DEFAULT_PATTERNS)) targets);
          s0 = \<lparr>warmed_total = 0, warmed = 0, progressed = 0,
                progress_max = max 1 total_files, logged = [], clock = 0\<rparr>
      in case warm_targets fs flag dry budget targets s0 of
           (Some e, s) \<Rightarrow> (Raised e, s)
         | (None, s) \<Rightarrow> (Completed, append_log (AllDone (warmed_total s)) s))"

text \<open>The files handed to \<open>warm_file\<close>, read off the log.\<close>

fun attempted :: "event list \<Rightarrow> path list" where
  "attempted [] = []"
| "attempted (Warmed i p rb tot # es) = p # attempted es"
| "attempted (FileError i p e # es) = p # attempted es"
| "attempted (ev # es) = attempted es"

text \<open>
  The files warmed, read off the log: the path, the bytes read and the running total each
  line reports; the running totals in order; and the bytes read from the file warmed last
  (0 when none was).
\<close>

fun warmings :: "event list \<Rightarrow> (path \<times> nat \<times> nat) list" where
  "warmings [] = []"
| "warmings (Warmed i p rb tot # es) = (p, rb, tot) # warmings es"
| "warmings (ev # es) = warmings es"

definition totals :: "event list \<Rightarrow> nat list" where
  "totals es = map (\<lambda>(p, rb, tot). tot) (warmings es)"

definition last_warmed :: "event list \<Rightarrow> nat" where
  "last_warmed es = (case rev (warmings es) of [] \<Rightarrow> 0 | (p, rb, tot) # ws \<Rightarrow> rb)"

text \<open>
  What holds of the counters and the log throughout a session with budget \<open>budget\<close>.
\<close>

definition budget_inv :: "fs \<Rightarrow> int \<Rightarrow> session \<Rightarrow> bool" where
  "budget_inv fs budget s \<longleftrightarrow>
     sorted (totals (logged s))
     \<and> (\<forall>tot \<in> set (totals (logged s)). tot \<le> warmed_total s)
     \<and> (\<forall>(p, rb, tot) \<in> set (warmings (logged s)).
          warm_file fs p 16 = Inr rb \<and> rb \<le> tot \<and> int tot - int rb < budget)
     \<and> int (warmed_total s) \<le> budget + int (last_warmed (logged s))"

text \<open>
  The lines a session logs for one target when the budget is exhausted from the start, and
  in a dry run whose sizes are \<open>sz\<close>; and the bytes of the files the log reports warmed.
\<close>

definition limit_log :: "fs \<Rightarrow> path \<Rightarrow> event list" where
  "limit_log fs t =
     (if iter_files fs t DEFAULT_PATTERNS = [] then [Start t, Done t 0]
      else [Start t, HitLimit, Done t 0])"

definition plan_log :: "fs \<Rightarrow> (path \<Rightarrow> nat) \<Rightarrow> path \<Rightarrow> event list" where
  "plan_log fs sz t =
     (let files = iter_files fs t DEFAULT_PATTERNS in
      Start t
      # map (\<lambda>(i, p). Plan i (length files) p (sz p)) (enumerate1 (sort_key (rank_key sz) files))
      @ [Done t 0])"

definition bytes_logged :: "event list \<Rightarrow> nat" where
  "bytes_logged es = sum_list (map (\<lambda>(p, rb, tot). rb) (warmings es))"

section \<open>Instance discovery\<close>

definition MARKERS :: "string list" where
  "MARKERS = [''mods'', ''config'', ''resourcepacks'', ''.minecraft'']"

text \<open>\<open>root_dir.iterdir()\<close>, consumed whole by \<open>sorted\<close>.\<close>

definition iterdir :: "fs \<Rightarrow> path \<Rightarrow> error + path list" where
  "iterdir fs d = (case listdir fs d of Inl e \<Rightarrow> Inl e | Inr ns \<Rightarrow> Inr (map (joinpath d) ns))"

text \<open>\<open>any((child / sub).exists() for sub in (...))\<close>: it stops at the first hit.\<close>

fun has_content :: "fs \<Rightarrow> path \<Rightarrow> string list \<Rightarrow> error + bool" where
  "has_content fs child [] = Inr False"
| "has_content fs child (sub # subs) =
     (case exists fs (joinpath child sub) of
        Inl e \<Rightarrow> Inl e
      | Inr True \<Rightarrow> Inr True
      | Inr False \<Rightarrow> has_content fs child subs)"

text \<open>
  The loop of \<open>list_instances\<close>. An exception leaves the \<open>try\<close>; the instances appended
  so far are returned.
\<close>

fun instances_loop :: "fs \<Rightarrow> path list \<Rightarrow> path list \<Rightarrow> path list" where
  "instances_loop fs [] instances = instances"
| "instances_loop fs (child # children) instances =
     (case is_dir fs child of
        Inl e \<Rightarrow> instances
      | Inr False \<Rightarrow> instances_loop fs children instances
      | Inr True \<Rightarrow>
          (case has_content fs child MARKERS of
             Inl e \<Rightarrow> instances
           | Inr True \<Rightarrow> instances_loop fs children (instances @ [child])
           | Inr False \<Rightarrow> instances_loop fs children instances))"

text \<open>Paths compare by their parts, so \<open>sorted\<close> is the sort by \<open>parts\<close>.\<close>

definition list_instances :: "fs \<Rightarrow> path \<Rightarrow> path list" where
  "list_instances fs root_dir =
     (case iterdir fs root_dir of
        Inl e \<Rightarrow> []
      | Inr children \<Rightarrow> instances_loop fs (sort_key parts children) [])"

text \<open>
  The test of the loop body on a child, as a predicate: it is a directory and one of the
  markers exists in it.
\<close>

definition looks_like_instance :: "fs \<Rightarrow> path \<Rightarrow> bool" where
  "looks_like_instance fs c \<longleftrightarrow>
     is_dir fs c = Inr True \<and> (\<exists>m \<in> set MARKERS. exists fs (joinpath c m) = Inr True)"

text \<open>The test of the loop body with its exceptions: \<open>Inl\<close> when a probe raises.\<close>

definition probe :: "fs \<Rightarrow> path \<Rightarrow> error + bool" where
  "probe fs child =
     (case is_dir fs child of
        Inl e \<Rightarrow> Inl e
      | Inr False \<Rightarrow> Inr False
      | Inr True \<Rightarrow> has_content fs child MARKERS)"

section \<open>An example instance\<close>

text \<open>
  An instance \<open>/inst\<close> with a mod archive, a configuration file, an image larger than
  the archive, a text file and an old archive under \<open>logs\<close>, and a link
  \<open>mods/old.jar\<close> to that old archive; and a launcher
  directory \<open>/launcher\<close> with four entries; on Linux, with 16 GiB to allocate.
\<close>

definition ex_root :: path where
  "ex_root = Path ''/'' [''inst'']"

definition f_jar :: path where
  "f_jar = Path ''/'' [''inst'', ''mods'', ''A.jar'']"

definition f_toml :: path where
  "f_toml = Path ''/'' [''inst'', ''config'', ''b.toml'']"

definition f_txt :: path where
  "f_txt = Path ''/'' [''inst'', ''logs'', ''ignored.txt'']"

definition f_old :: path where
  "f_old = Path ''/'' [''inst'', ''logs'', ''old.jar'']"

definition f_link :: path where
  "f_link = Path ''/'' [''inst'', ''mods'', ''old.jar'']"

definition f_png :: path where
  "f_png = Path ''/'' [''inst'', ''resourcepacks'', ''icon.png'']"

definition ex_launcher :: path where
  "ex_launcher = Path ''/'' [''launcher'']"

definition ex_fs :: fs where
  "ex_fs =
     \<lparr>rglob = (\<lambda>r pat.
         if r \<noteq> ex_root then []
         else if pat = ''*.jar'' then [f_old, f_jar, f_link]
         else if pat = ''*.toml'' then [f_toml]
         else if pat = ''*.txt'' then [f_txt]
         else if pat = ''*.png'' then [f_png]
         else []),
      is_file = (\<lambda>p. Inr (p \<in> {f_jar, f_toml, f_txt, f_old, f_link, f_png})),
      exists = (\<lambda>p. Inr (p \<in> {f_jar, f_toml, f_txt, f_old, f_link, f_png,
                   Path ''/'' [''launcher'', ''zeta'', ''mods''],
                   Path ''/'' [''launcher'', ''alpha'', ''.minecraft'']})),
      resolve = (\<lambda>p. Inr (if p = f_link then f_old else p)),
      stat_size = (\<lambda>p.
         if p = f_jar then Inr 10
         else if p = f_toml then Inr 3
         else if p \<in> {f_txt, f_old, f_link} then Inr 5
         else if p = f_png then Inr 20
         else Inl FileNotFoundError),
      open_rb = (\<lambda>p.
         if p = f_jar then Inr \<lparr>avail = replicate 10 0, ending = Eof\<rparr>
         else if p = f_toml then Inr \<lparr>avail = [1, 2, 3], ending = Eof\<rparr>
         else if p \<in> {f_txt, f_old, f_link} then Inr \<lparr>avail = replicate 5 7, ending = Eof\<rparr>
         else if p = f_png then Inr \<lparr>avail = replicate 20 9, ending = Eof\<rparr>
         else Inl FileNotFoundError),
      listdir = (\<lambda>p.
         if p = ex_launcher then Inr [''zeta'', ''readme.txt'', ''alpha'', ''empty'']
         else Inl PermissionError),
      is_dir = (\<lambda>p. Inr (p \<in> {Path ''/'' [''launcher'', ''zeta''],
                   Path ''/'' [''launcher'', ''alpha''],
                   Path ''/'' [''launcher'', ''empty'']})),
      platform = Linux,
      alloc_max = 17179869184\<rparr>"

text \<open>The same instance after \<open>config/b.toml\<close> was deleted: \<open>stat\<close> on it raises.\<close>

definition ex_fs_deleted :: fs where
  "ex_fs_deleted =
     ex_fs\<lparr>stat_size := (\<lambda>p. if p = f_toml then Inl FileNotFoundError else stat_size ex_fs p)\<rparr>"

text \<open>The same instance with a disk that fails after the fourth byte of \<open>mods/A.jar\<close>.\<close>

definition ex_fs_bad_disk :: fs where
  "ex_fs_bad_disk =
     ex_fs\<lparr>open_rb := (\<lambda>p. if p = f_jar then Inr \<lparr>avail = replicate 4 0, ending = Fails OSError\<rparr>
                             else open_rb ex_fs p)\<rparr>"

definition ex_size :: "path \<Rightarrow> nat" where
  "ex_size p = (case stat_size ex_fs p of Inr n \<Rightarrow> n | Inl e \<Rightarrow> 0)"

lemmas rank_defs =
  sort_files_def sort_key_of_def weight_def name_def lower_def lower_char_def
  upper_letters_def lower_letters_def endswith_def

text \<open>
  A launcher directory in which \<open>locked\<close> cannot be searched: \<open>exists\<close> on an
  entry of it raises.
\<close>

definition ex_fs_locked :: fs where
  "ex_fs_locked =
     ex_fs\<lparr>listdir := (\<lambda>p. if p = ex_launcher then Inr [''zeta'', ''locked'', ''alpha'']
                             else Inl PermissionError),
           is_dir := (\<lambda>p. Inr (p \<in> {Path ''/'' [''launcher'', ''zeta''],
                             Path ''/'' [''launcher'', ''locked''],
                             Path ''/'' [''launcher'', ''alpha'']})),
           exists := (\<lambda>p. if p = Path ''/'' [''launcher'', ''locked'', ''mods'']
                           then Inl PermissionError
                           else Inr (p \<in> {Path ''/'' [''launcher'', ''zeta'', ''mods''],
                                  Path ''/'' [''launcher'', ''alpha'', ''mods'']}))\<rparr>"

text \<open>The state in which the loop over the files of \<open>/inst\<close> is entered.\<close>

definition ex_started :: session where
  "ex_started = \<lparr>warmed_total = 0, warmed = 0, progressed = 0, progress_max = 3,
     logged = [Start ex_root], clock = 1\<rparr>"

lemmas ex_defs =
  ex_fs_def ex_root_def f_jar_def f_toml_def f_txt_def f_old_def f_link_def f_png_def
  ex_launcher_def

lemmas iter_defs =
  iter_files_def all_matches_def DEFAULT_PATTERNS_def file_key_def has_skip_part_def
  parts_def SKIP_DIRNAMES_def

lemmas inst_defs =
  list_instances_def iterdir_def probe_def looks_like_instance_def MARKERS_def joinpath_def
  parts_def less_eq_char_def less_char_def list_le_def

lemma ex_iter_files: "iter_files ex_fs ex_root DEFAULT_PATTERNS = [f_jar, f_toml, f_png]"
  by (simp add: iter_defs ex_defs)

section \<open>Properties of the enumeration\<close>

lemma iter_matches_append:
  "iter_matches fs (ms @ ns) seen =
     (case iter_matches fs ms seen of
        (ys, seen') \<Rightarrow> (case iter_matches fs ns seen' of (zs, seen'') \<Rightarrow> (ys @ zs, seen'')))"
  by (induction ms arbitrary: seen)
     (auto split: sum.splits bool.splits prod.splits)

lemma iter_patterns_flat:
  "iter_patterns fs root patterns seen =
     fst (iter_matches fs (concat (map (rglob fs root) patterns)) seen)"
  by (induction patterns arbitrary: seen)
     (auto simp: iter_matches_append split: prod.splits)

lemma iter_files_flat:
  "iter_files fs root patterns = fst (iter_matches fs (all_matches fs root patterns) {})"
  by (simp add: iter_files_def all_matches_def iter_patterns_flat)

lemma iter_matches_yielded:
  "p \<in> set (fst (iter_matches fs ms seen)) \<Longrightarrow>
     p \<in> set ms \<and> \<not> has_skip_part p \<and> is_file fs p = Inr True \<and>
     (\<exists>k. file_key fs p = Inr k \<and> k \<notin> seen)"
proof (induction ms arbitrary: seen)
  case Nil
  then show ?case by simp
next
  case (Cons m ms)
  show ?case
  proof (cases "is_file fs m = Inr True \<and> (\<exists>k. file_key fs m = Inr k \<and> k \<notin> seen)")
    case False
    then have "iter_matches fs (m # ms) seen = iter_matches fs ms seen"
      by (auto split: sum.splits bool.splits)
    with Cons show ?thesis by auto
  next
    case True
    then obtain k where k: "is_file fs m = Inr True" "file_key fs m = Inr k" "k \<notin> seen"
      by blast
    show ?thesis
    proof (cases "has_skip_part m")
      case True
      with k have "iter_matches fs (m # ms) seen = iter_matches fs ms (insert k seen)"
        by simp
      with Cons.prems have "p \<in> set (fst (iter_matches fs ms (insert k seen)))" by simp
      from Cons.IH [OF this] show ?thesis by auto
    next
      case False
      with k have "fst (iter_matches fs (m # ms) seen) =
          m # fst (iter_matches fs ms (insert k seen))"
        by (simp split: prod.splits)
      with Cons.prems have "p = m \<or> p \<in> set (fst (iter_matches fs ms (insert k seen)))"
        by simp
      then show ?thesis
      proof
        assume "p = m"
        with k False show ?thesis by auto
      next
        assume "p \<in> set (fst (iter_matches fs ms (insert k seen)))"
        from Cons.IH [OF this] show ?thesis by auto
      qed
    qed
  qed
qed

lemma iter_matches_distinct_keys:
  "distinct (map (file_key fs) (fst (iter_matches fs ms seen)))"
proof (induction ms arbitrary: seen)
  case Nil
  then show ?case by simp
next
  case (Cons m ms)
  show ?case
  proof (cases "is_file fs m = Inr True \<and> (\<exists>k. file_key fs m = Inr k \<and> k \<notin> seen)")
    case False
    then have "iter_matches fs (m # ms) seen = iter_matches fs ms seen"
      by (auto split: sum.splits bool.splits)
    with Cons show ?thesis by simp
  next
    case True
    then obtain k where k: "is_file fs m = Inr True" "file_key fs m = Inr k" "k \<notin> seen"
      by blast
    show ?thesis
    proof (cases "has_skip_part m")
      case True
      with k have "iter_matches fs (m # ms) seen = iter_matches fs ms (insert k seen)"
        by simp
      with Cons show ?thesis by simp
    next
      case False
      with k have eq: "fst (iter_matches fs (m # ms) seen) =
          m # fst (iter_matches fs ms (insert k seen))"
        by (simp split: prod.splits)
      have "file_key fs q \<noteq> Inr k"
        if "q \<in> set (fst (iter_matches fs ms (insert k seen)))" for q
        using iter_matches_yielded [OF that] by auto
      then have "file_key fs m \<notin> file_key fs ` set (fst (iter_matches fs ms (insert k seen)))"
        using k(2) by force
      with Cons.IH [of "insert k seen"] eq show ?thesis by simp
    qed
  qed
qed

lemma iter_matches_Cons_cases:
  assumes "q \<in> set (fst (iter_matches fs (m # ms) seen))"
  shows "q = m \<or> (\<exists>seen'. q \<in> set (fst (iter_matches fs ms seen')))"
proof (cases "iter_matches fs (m # ms) seen = iter_matches fs ms seen")
  case True
  with assms show ?thesis by auto
next
  case False
  then obtain k where k: "file_key fs m = Inr k" "is_file fs m = Inr True" "k \<notin> seen"
    by (auto split: sum.splits bool.splits if_splits)
  show ?thesis
  proof (cases "has_skip_part m")
    case True
    with k assms show ?thesis by auto
  next
    case False
    with k have "fst (iter_matches fs (m # ms) seen) =
        m # fst (iter_matches fs ms (insert k seen))"
      by (simp split: prod.splits)
    with assms show ?thesis by auto
  qed
qed

lemma iter_matches_first_skipped:
  assumes "find (\<lambda>p. is_file fs p = Inr True \<and> file_key fs p = Inr k) ms = Some p0"
    and "has_skip_part p0"
    and "q \<in> set (fst (iter_matches fs ms seen))"
  shows "file_key fs q \<noteq> Inr k"
  using assms
proof (induction ms arbitrary: seen)
  case Nil
  then show ?case by simp
next
  case (Cons m ms)
  show ?case
  proof (cases "k \<in> seen")
    case True
    with iter_matches_yielded [OF Cons.prems(3)] show ?thesis by auto
  next
    case notseen: False
    show ?thesis
    proof (cases "is_file fs m = Inr True \<and> file_key fs m = Inr k")
      case True
      with Cons.prems(1) have "p0 = m" by simp
      with Cons.prems(2) True notseen
      have "iter_matches fs (m # ms) seen = iter_matches fs ms (insert k seen)"
        by simp
      with Cons.prems(3) have "q \<in> set (fst (iter_matches fs ms (insert k seen)))" by simp
      from iter_matches_yielded [OF this] show ?thesis by auto
    next
      case False
      with Cons.prems(1)
      have f: "find (\<lambda>p. is_file fs p = Inr True \<and> file_key fs p = Inr k) ms = Some p0"
        by simp
      from False have "file_key fs q \<noteq> Inr k" if "q = m"
        using that iter_matches_yielded [OF Cons.prems(3)] by auto
      moreover have "file_key fs q \<noteq> Inr k" if "q \<noteq> m"
      proof -
        from iter_matches_Cons_cases [OF Cons.prems(3)] that
        obtain seen' where "q \<in> set (fst (iter_matches fs ms seen'))"
          by blast
        from Cons.IH [OF f Cons.prems(2) this] show ?thesis .
      qed
      ultimately show ?thesis by blast
    qed
  qed
qed

text \<open>
  C3: for every root and every sequence of patterns, no path yielded by \<open>iter_files\<close> has
  a part in \<open>SKIP_DIRNAMES\<close>, and no two yielded paths have the same key, the resolved
  identity \<open>p.resolve() if p.exists() else p\<close> the code deduplicates by: in particular no
  two distinct yielded paths that exist resolve to the same path.
\<close>

theorem iter_files_no_skip_no_duplicates:
  "(\<forall>p \<in> set (iter_files fs root patterns). \<forall>part \<in> set (parts p). part \<notin> SKIP_DIRNAMES)
   \<and> distinct (map (file_key fs) (iter_files fs root patterns))
   \<and> (\<forall>p \<in> set (iter_files fs root patterns). \<forall>q \<in> set (iter_files fs root patterns).
        exists fs p = Inr True \<and> exists fs q = Inr True \<and> resolve fs p = resolve fs q
        \<longrightarrow> p = q)"
proof (intro conjI ballI impI)
  fix p part
  assume "p \<in> set (iter_files fs root patterns)" and part: "part \<in> set (parts p)"
  then have "\<not> has_skip_part p"
    using iter_matches_yielded [of p fs "all_matches fs root patterns" "{}"]
    by (simp add: iter_files_flat)
  with part show "part \<notin> SKIP_DIRNAMES"
    by (auto simp: has_skip_part_def)
next
  show d: "distinct (map (file_key fs) (iter_files fs root patterns))"
    by (simp add: iter_files_flat iter_matches_distinct_keys)
  fix p q
  assume "p \<in> set (iter_files fs root patterns)" "q \<in> set (iter_files fs root patterns)"
    and "exists fs p = Inr True \<and> exists fs q = Inr True \<and> resolve fs p = resolve fs q"
  moreover from this have "file_key fs p = file_key fs q"
    by (simp add: file_key_def)
  ultimately show "p = q"
    using d by (meson distinct_map inj_on_def)
qed

theorem iter_files_no_skip_no_duplicates_witness:
  "f_jar \<in> set (iter_files ex_fs ex_root DEFAULT_PATTERNS)
   \<and> ''mods'' \<in> set (parts f_jar) \<and> ''mods'' \<notin> SKIP_DIRNAMES
   \<and> f_toml \<in> set (iter_files ex_fs ex_root DEFAULT_PATTERNS)
   \<and> file_key ex_fs f_jar \<noteq> file_key ex_fs f_toml
   \<and> exists ex_fs f_jar = Inr True \<and> exists ex_fs f_toml = Inr True
   \<and> resolve ex_fs f_jar \<noteq> resolve ex_fs f_toml"
proof -
  have in1: "f_jar \<in> set (iter_files ex_fs ex_root DEFAULT_PATTERNS)"
    and in2: "f_toml \<in> set (iter_files ex_fs ex_root DEFAULT_PATTERNS)"
    by (simp_all add: ex_iter_files)
  have mods: "''mods'' \<in> set (parts f_jar)"
    by (simp add: parts_def f_jar_def)
  have ex: "exists ex_fs f_jar = Inr True" "exists ex_fs f_toml = Inr True"
    by (simp_all add: ex_defs)
  have ne: "f_jar \<noteq> f_toml"
    by (simp add: ex_defs)
  note inst = iter_files_no_skip_no_duplicates [of ex_fs ex_root DEFAULT_PATTERNS]
  from inst in1 mods have "''mods'' \<notin> SKIP_DIRNAMES" by blast
  moreover from inst in1 in2 ex ne have r: "resolve ex_fs f_jar \<noteq> resolve ex_fs f_toml"
    by blast
  moreover from r ex have "file_key ex_fs f_jar \<noteq> file_key ex_fs f_toml"
    by (simp add: file_key_def)
  ultimately show ?thesis using in1 in2 mods ex by simp
qed

text \<open>
  C10: a key enters \<open>seen\<close> before the test on \<open>SKIP_DIRNAMES\<close>. So when the first match
  of a call that is a regular file with key \<open>k\<close> has a part in \<open>SKIP_DIRNAMES\<close>, the call
  yields no path with key \<open>k\<close>: every later match of any pattern that resolves to the same
  file is suppressed too.
\<close>

theorem iter_files_alias_of_skipped_suppressed:
  assumes "find (\<lambda>p. is_file fs p = Inr True \<and> file_key fs p = Inr k)
             (all_matches fs root patterns) = Some p0"
    and "has_skip_part p0"
  shows "\<forall>q \<in> set (iter_files fs root patterns). file_key fs q \<noteq> Inr k"
  using iter_matches_first_skipped [OF assms] by (simp add: iter_files_flat)

theorem iter_files_alias_of_skipped_suppressed_witness:
  "find (\<lambda>p. is_file ex_fs p = Inr True \<and> file_key ex_fs p = Inr f_old)
     (all_matches ex_fs ex_root DEFAULT_PATTERNS) = Some f_old
   \<and> has_skip_part f_old
   \<and> f_link \<in> set (all_matches ex_fs ex_root DEFAULT_PATTERNS)
   \<and> \<not> has_skip_part f_link
   \<and> file_key ex_fs f_link = Inr f_old
   \<and> f_link \<notin> set (iter_files ex_fs ex_root DEFAULT_PATTERNS)"
proof -
  have first: "find (\<lambda>p. is_file ex_fs p = Inr True \<and> file_key ex_fs p = Inr f_old)
      (all_matches ex_fs ex_root DEFAULT_PATTERNS) = Some f_old"
    by (simp add: iter_defs ex_defs)
  have skip: "has_skip_part f_old"
    by (simp add: iter_defs ex_defs)
  have link: "f_link \<in> set (all_matches ex_fs ex_root DEFAULT_PATTERNS)"
    "\<not> has_skip_part f_link" "file_key ex_fs f_link = Inr f_old"
    by (simp_all add: iter_defs ex_defs)
  from iter_files_alias_of_skipped_suppressed [OF first skip] link(3)
  have "f_link \<notin> set (iter_files ex_fs ex_root DEFAULT_PATTERNS)"
    by blast
  with first skip link show ?thesis by simp
qed

section \<open>Properties of warm_file\<close>











section \<open>Properties of list_instances\<close>

lemma parts_joinpath: "parts (joinpath d n) = parts d @ [n]"
  by (simp add: parts_def joinpath_def)

lemma name_joinpath: "name (joinpath d n) = n"
  by (simp add: name_def joinpath_def)

lemma append_snoc_le_iff: "xs @ [a] \<le> xs @ [b] \<longleftrightarrow> a \<le> (b :: 'a :: linorder)"
  by (induction xs) (auto simp: list_le_def)

lemma insort_key_joinpath:
  "insort_key parts (joinpath d n) (map (joinpath d) ns) = map (joinpath d) (insort n ns)"
  by (induction ns) (simp_all add: parts_joinpath append_snoc_le_iff)

lemma sort_key_joinpath:
  "sort_key parts (map (joinpath d) ns) = map (joinpath d) (sort ns)"
  by (induction ns) (simp_all add: insort_key_joinpath)

lemma has_content_result:
  "has_content fs c ms = Inr b \<Longrightarrow> b = (\<exists>m \<in> set ms. exists fs (joinpath c m) = Inr True)"
  by (induction ms) (auto split: sum.splits bool.splits)

lemma probe_result: "probe fs c = Inr b \<Longrightarrow> b = looks_like_instance fs c"
  by (auto simp: probe_def looks_like_instance_def split: sum.splits bool.splits
      dest: has_content_result)

lemma instances_loop_probe:
  "instances_loop fs cs acc =
     acc @ filter (\<lambda>c. probe fs c = Inr True) (takeWhile (\<lambda>c. \<not> isl (probe fs c)) cs)"
  by (induction cs arbitrary: acc) (auto simp: probe_def split: sum.splits bool.splits)

lemma instances_loop_looks_like:
  "instances_loop fs cs [] =
     filter (looks_like_instance fs) (takeWhile (\<lambda>c. \<not> isl (probe fs c)) cs)"
proof -
  have "probe fs c = Inr True \<longleftrightarrow> looks_like_instance fs c"
    if "c \<in> set (takeWhile (\<lambda>c. \<not> isl (probe fs c)) cs)" for c
  proof -
    from set_takeWhileD [OF that] obtain b where "probe fs c = Inr b"
      by (cases "probe fs c") auto
    with probe_result [OF this] show ?thesis by simp
  qed
  then show ?thesis
    by (simp add: instances_loop_probe cong: filter_cong)
qed

text \<open>
  C8, as amended: when listing the root directory raises, \<open>list_instances\<close> returns the
  empty list. Otherwise it walks the children in the lexicographic order of their names and
  returns, in that order, those that are directories holding one of \<open>mods\<close>,
  \<open>config\<close>, \<open>resourcepacks\<close>, \<open>.minecraft\<close>, up to the first child whose test
  raises; when no test raises, these are all such children.
\<close>

theorem list_instances_up_to_first_failure:
  "(\<forall>e. listdir fs root_dir = Inl e \<longrightarrow> list_instances fs root_dir = [])
   \<and> (\<forall>names. listdir fs root_dir = Inr names \<longrightarrow>
         list_instances fs root_dir =
           filter (looks_like_instance fs)
             (takeWhile (\<lambda>c. \<not> isl (probe fs c)) (map (joinpath root_dir) (sort names)))
         \<and> sorted (map name (list_instances fs root_dir)))
   \<and> (\<forall>names. listdir fs root_dir = Inr names
          \<and> (\<forall>n \<in> set names. \<not> isl (probe fs (joinpath root_dir n))) \<longrightarrow>
         list_instances fs root_dir =
           filter (looks_like_instance fs) (map (joinpath root_dir) (sort names)))"
proof (intro conjI allI impI)
  fix e
  assume "listdir fs root_dir = Inl e"
  then show "list_instances fs root_dir = []"
    by (simp add: list_instances_def iterdir_def)
next
  fix names
  assume a: "listdir fs root_dir = Inr names"
  let ?cs = "map (joinpath root_dir) (sort names)"
  let ?ok = "\<lambda>c. \<not> isl (probe fs c)"
  from a have "list_instances fs root_dir = instances_loop fs ?cs []"
    by (simp add: list_instances_def iterdir_def sort_key_joinpath)
  then show r: "list_instances fs root_dir = filter (looks_like_instance fs) (takeWhile ?ok ?cs)"
    by (simp only: instances_loop_looks_like)
  have "sorted (map name ?cs)"
    by (simp add: comp_def name_joinpath)
  then have "sorted (map name (takeWhile ?ok ?cs))"
    by (metis sorted_wrt_take takeWhile_eq_take take_map)
  then have "sorted (map name (filter (looks_like_instance fs) (takeWhile ?ok ?cs)))"
    by (rule sorted_filter)
  with r show "sorted (map name (list_instances fs root_dir))"
    by simp
next
  fix names
  assume a: "listdir fs root_dir = Inr names
      \<and> (\<forall>n \<in> set names. \<not> isl (probe fs (joinpath root_dir n)))"
  let ?cs = "map (joinpath root_dir) (sort names)"
  from a have "takeWhile (\<lambda>c. \<not> isl (probe fs c)) ?cs = ?cs"
    by (intro takeWhile_eq_all_conv [THEN iffD2]) auto
  moreover from a have "list_instances fs root_dir = instances_loop fs ?cs []"
    by (simp add: list_instances_def iterdir_def sort_key_joinpath)
  ultimately show "list_instances fs root_dir = filter (looks_like_instance fs) ?cs"
    by (simp only: instances_loop_looks_like)
qed


theorem list_instances_up_to_first_failure_witness:
  "listdir ex_fs ex_root = Inl PermissionError \<and> list_instances ex_fs ex_root = []
   \<and> listdir ex_fs ex_launcher = Inr [''zeta'', ''readme.txt'', ''alpha'', ''empty'']
   \<and> list_instances ex_fs ex_launcher =
       [Path ''/'' [''launcher'', ''alpha''], Path ''/'' [''launcher'', ''zeta'']]
   \<and> listdir ex_fs_locked ex_launcher = Inr [''zeta'', ''locked'', ''alpha'']
   \<and> list_instances ex_fs_locked ex_launcher = [Path ''/'' [''launcher'', ''alpha'']]"
proof -
  note inst1 = list_instances_up_to_first_failure [of ex_fs ex_root, THEN conjunct1, rule_format]
  note inst2 = list_instances_up_to_first_failure [of ex_fs ex_launcher,
      THEN conjunct2, THEN conjunct2, rule_format]
  note inst3 = list_instances_up_to_first_failure [of ex_fs_locked ex_launcher,
      THEN conjunct2, THEN conjunct1, rule_format, THEN conjunct1]
  have l1: "listdir ex_fs ex_root = Inl PermissionError"
    by (simp add: ex_defs)
  have l2: "listdir ex_fs ex_launcher = Inr [''zeta'', ''readme.txt'', ''alpha'', ''empty'']"
    by (simp add: ex_defs)
  have l3: "listdir ex_fs_locked ex_launcher = Inr [''zeta'', ''locked'', ''alpha'']"
    by (simp add: ex_fs_locked_def ex_defs)
  have ok: "\<forall>n \<in> set [''zeta'', ''readme.txt'', ''alpha'', ''empty''].
      \<not> isl (probe ex_fs (joinpath ex_launcher n))"
    by (simp add: inst_defs ex_defs)
  from inst1 [OF l1] have r1: "list_instances ex_fs ex_root = []" .
  have r2: "list_instances ex_fs ex_launcher =
      [Path ''/'' [''launcher'', ''alpha''], Path ''/'' [''launcher'', ''zeta'']]"
    unfolding inst2 [OF conjI [OF l2 ok]] by (simp add: inst_defs ex_defs)
  have r3: "list_instances ex_fs_locked ex_launcher = [Path ''/'' [''launcher'', ''alpha'']]"
    unfolding inst3 [OF l3] by (simp add: inst_defs ex_fs_locked_def ex_defs)
  from l1 l2 l3 r1 r2 r3 show ?thesis by simp
qed

text \<open>
  C8 as stated fails where a test raises: \<open>zeta\<close> is a directory of the launcher
  directory that holds \<open>mods\<close>, and it is not returned, because the test of
  \<open>locked\<close>, sorted before it, raised.
\<close>

theorem list_instances_misses_instance_after_failure:
  "listdir ex_fs_locked ex_launcher = Inr [''zeta'', ''locked'', ''alpha'']
   \<and> is_dir ex_fs_locked (joinpath ex_launcher ''zeta'') = Inr True
   \<and> exists ex_fs_locked (joinpath (joinpath ex_launcher ''zeta'') ''mods'') = Inr True
   \<and> joinpath ex_launcher ''zeta'' \<notin> set (list_instances ex_fs_locked ex_launcher)"
  by (simp add: inst_defs ex_fs_locked_def ex_defs)

section \<open>Properties of the sort\<close>


lemma endswith_last:
  assumes "endswith s suf" and "suf \<noteq> []"
  shows "last s = last suf"
proof -
  from assms have d: "drop (length s - length suf) s = suf" and "length suf \<le> length s"
    by (auto simp: endswith_def)
  moreover from assms(2) have "0 < length suf" by simp
  ultimately have "length s - length suf < length s" by linarith
  then have "last (drop (length s - length suf) s) = last s"
    by (simp add: last_drop)
  with d show ?thesis by simp
qed

lemma endswith_same_length:
  "endswith s a \<Longrightarrow> endswith s b \<Longrightarrow> length a = length b \<Longrightarrow> a = b"
  by (auto simp: endswith_def)

lemma endswith_classes_disjoint:
  assumes "\<forall>a \<in> set A. \<forall>b \<in> set B.
      a \<noteq> [] \<and> b \<noteq> [] \<and> (last a \<noteq> last b \<or> length a = length b \<and> a \<noteq> b)"
    and "\<exists>a \<in> set A. endswith s a" and "\<exists>b \<in> set B. endswith s b"
  shows False
proof -
  from assms(2,3) obtain a b where ab: "a \<in> set A" "endswith s a" "b \<in> set B" "endswith s b"
    by blast
  with assms(1) have c: "a \<noteq> []" "b \<noteq> []" "last a \<noteq> last b \<or> length a = length b \<and> a \<noteq> b"
    by blast+
  from endswith_last [OF ab(2) c(1)] endswith_last [OF ab(4) c(2)]
    endswith_same_length [OF ab(2) ab(4)] c(3)
  show False by auto
qed

lemma weight_classes:
  "(weight p = 0 \<longleftrightarrow> has_suffix p ''.jar'')
   \<and> (weight p = 1 \<longleftrightarrow> has_suffix p ''.zip'')
   \<and> (weight p = 2 \<longleftrightarrow> has_suffix p ''.json'' \<or> has_suffix p ''.toml'' \<or> has_suffix p ''.cfg''
                         \<or> has_suffix p ''.ini'')
   \<and> (weight p = 3 \<longleftrightarrow> has_suffix p ''.png'' \<or> has_suffix p ''.ogg'' \<or> has_suffix p ''.wav'')
   \<and> (weight p = 4 \<longleftrightarrow> \<not> (has_suffix p ''.jar'' \<or> has_suffix p ''.zip'' \<or> has_suffix p ''.json''
                         \<or> has_suffix p ''.toml'' \<or> has_suffix p ''.cfg'' \<or> has_suffix p ''.ini''
                         \<or> has_suffix p ''.png'' \<or> has_suffix p ''.ogg'' \<or> has_suffix p ''.wav''))"
proof -
  define c0 where "c0 = has_suffix p ''.jar''"
  define c1 where "c1 = has_suffix p ''.zip''"
  define c2 where "c2 = (has_suffix p ''.json'' \<or> has_suffix p ''.toml''
      \<or> has_suffix p ''.cfg'' \<or> has_suffix p ''.ini'')"
  define c3 where "c3 = (has_suffix p ''.png'' \<or> has_suffix p ''.ogg'' \<or> has_suffix p ''.wav'')"
  have w: "weight p = (if c0 then 0 else if c1 then 1 else if c2 then 2 else if c3 then 3 else 4)"
    by (simp add: weight_def has_suffix_def c0_def c1_def c2_def c3_def)
  have "\<not> (c0 \<and> (c1 \<or> c2 \<or> c3))"
    using endswith_classes_disjoint [of "[''.jar'']"
        "[''.zip'', ''.json'', ''.toml'', ''.cfg'', ''.ini'', ''.png'', ''.ogg'', ''.wav'']"
        "lower (name p)"]
    by (simp add: c0_def c1_def c2_def c3_def has_suffix_def) blast
  moreover have "\<not> (c1 \<and> (c2 \<or> c3))"
    using endswith_classes_disjoint [of "[''.zip'']"
        "[''.json'', ''.toml'', ''.cfg'', ''.ini'', ''.png'', ''.ogg'', ''.wav'']"
        "lower (name p)"]
    by (simp add: c1_def c2_def c3_def has_suffix_def) blast
  moreover have "\<not> (c2 \<and> c3)"
    using endswith_classes_disjoint [of "[''.json'', ''.toml'', ''.cfg'', ''.ini'']"
        "[''.png'', ''.ogg'', ''.wav'']" "lower (name p)"]
    by (simp add: c2_def c3_def has_suffix_def) blast
  ultimately have "(weight p = 0 \<longleftrightarrow> c0) \<and> (weight p = 1 \<longleftrightarrow> c1) \<and> (weight p = 2 \<longleftrightarrow> c2)
      \<and> (weight p = 3 \<longleftrightarrow> c3) \<and> (weight p = 4 \<longleftrightarrow> \<not> (c0 \<or> c1 \<or> c2 \<or> c3))"
    unfolding w by auto
  then show ?thesis
    unfolding c0_def c1_def c2_def c3_def by blast
qed

lemma weight_case_insensitive: "lower (name p) = lower (name q) \<Longrightarrow> weight p = weight q"
  by (simp add: weight_def)

lemma keys_of_ok:
  "\<forall>p \<in> set files. stat_size fs p = Inr (sz p) \<Longrightarrow>
   keys_of fs files = Inr (map (rank_key sz) files)"
  by (induction files) (simp_all add: sort_key_of_def rank_key_def)

lemma insort_key_decorated:
  "insort_key fst (f x, x) (map (\<lambda>y. (f y, y)) ys) = map (\<lambda>y. (f y, y)) (insort_key f x ys)"
  by (induction ys) simp_all

lemma sort_key_decorated:
  "sort_key fst (map (\<lambda>y. (f y, y)) xs) = map (\<lambda>y. (f y, y)) (sort_key f xs)"
  by (induction xs) (simp_all add: insort_key_decorated)

lemma zip_map_self: "zip (map f xs) xs = map (\<lambda>y. (f y, y)) xs"
  by (induction xs) simp_all

lemma sort_files_ok:
  assumes "\<forall>p \<in> set files. stat_size fs p = Inr (sz p)"
  shows "sort_files fs files = Inr (sort_key (rank_key sz) files)"
  by (simp add: sort_files_def keys_of_ok [OF assms] zip_map_self sort_key_decorated comp_def)


lemma sorted_rank_key_nth:
  assumes "sorted (map (rank_key sz) r)" and "i < j" and "j < length r"
  shows "weight (r ! i) < weight (r ! j)
         \<or> weight (r ! i) = weight (r ! j) \<and> sz (r ! j) \<le> sz (r ! i)"
proof -
  from assms have "map (rank_key sz) r ! i \<le> map (rank_key sz) r ! j"
    by (intro sorted_nth_mono) auto
  with assms show ?thesis
    by (auto simp: rank_key_def less_eq_prod_def)
qed

text \<open>
  C4: the class of a file is decided by the suffix of its lower-cased name (\<open>.jar\<close> 0,
  \<open>.zip\<close> 1, \<open>.json\<close>, \<open>.toml\<close>, \<open>.cfg\<close>, \<open>.ini\<close> 2, \<open>.png\<close>, \<open>.ogg\<close>,
  \<open>.wav\<close> 3, anything else 4). When the sizes can be read, the sort returns a
  permutation of the files, ordered by class and, within a class, by descending size, in
  which files of equal key keep their order; every file of class 0 comes before every file
  of class 3; and sorting the result again returns it unchanged.
\<close>

theorem sort_files_stable_rank:
  assumes "\<forall>p \<in> set files. stat_size fs p = Inr (sz p)"
  shows "(\<forall>p. (weight p = 0 \<longleftrightarrow> has_suffix p ''.jar'')
            \<and> (weight p = 1 \<longleftrightarrow> has_suffix p ''.zip'')
            \<and> (weight p = 2 \<longleftrightarrow> has_suffix p ''.json'' \<or> has_suffix p ''.toml''
                                  \<or> has_suffix p ''.cfg'' \<or> has_suffix p ''.ini'')
            \<and> (weight p = 3 \<longleftrightarrow> has_suffix p ''.png'' \<or> has_suffix p ''.ogg''
                                  \<or> has_suffix p ''.wav'')
            \<and> (weight p = 4 \<longleftrightarrow> \<not> (has_suffix p ''.jar'' \<or> has_suffix p ''.zip''
                                  \<or> has_suffix p ''.json'' \<or> has_suffix p ''.toml''
                                  \<or> has_suffix p ''.cfg'' \<or> has_suffix p ''.ini''
                                  \<or> has_suffix p ''.png'' \<or> has_suffix p ''.ogg''
                                  \<or> has_suffix p ''.wav'')))
    \<and> (\<forall>p q. lower (name p) = lower (name q) \<longrightarrow> weight p = weight q)
    \<and> (\<exists>r. sort_files fs files = Inr r
          \<and> mset r = mset files
          \<and> sorted (map (rank_key sz) r)
          \<and> (\<forall>k. filter (\<lambda>p. rank_key sz p = k) r = filter (\<lambda>p. rank_key sz p = k) files)
          \<and> (\<forall>i j. i < j \<and> j < length r \<longrightarrow>
                weight (r ! i) < weight (r ! j)
                \<or> weight (r ! i) = weight (r ! j) \<and> sz (r ! j) \<le> sz (r ! i))
          \<and> (\<forall>i j. i < length r \<and> j < length r \<and> weight (r ! i) = 0 \<and> weight (r ! j) = 3
                \<longrightarrow> i < j)
          \<and> sort_files fs r = Inr r)"
proof (intro conjI)
  show "\<forall>p. (weight p = 0 \<longleftrightarrow> has_suffix p ''.jar'')
            \<and> (weight p = 1 \<longleftrightarrow> has_suffix p ''.zip'')
            \<and> (weight p = 2 \<longleftrightarrow> has_suffix p ''.json'' \<or> has_suffix p ''.toml''
                                  \<or> has_suffix p ''.cfg'' \<or> has_suffix p ''.ini'')
            \<and> (weight p = 3 \<longleftrightarrow> has_suffix p ''.png'' \<or> has_suffix p ''.ogg''
                                  \<or> has_suffix p ''.wav'')
            \<and> (weight p = 4 \<longleftrightarrow> \<not> (has_suffix p ''.jar'' \<or> has_suffix p ''.zip''
                                  \<or> has_suffix p ''.json'' \<or> has_suffix p ''.toml''
                                  \<or> has_suffix p ''.cfg'' \<or> has_suffix p ''.ini''
                                  \<or> has_suffix p ''.png'' \<or> has_suffix p ''.ogg''
                                  \<or> has_suffix p ''.wav''))"
    by (rule allI) (rule weight_classes)
  show "\<forall>p q. lower (name p) = lower (name q) \<longrightarrow> weight p = weight q"
    using weight_case_insensitive by blast
  let ?r = "sort_key (rank_key sz) files"
  have r: "sort_files fs files = Inr ?r"
    by (rule sort_files_ok [OF assms])
  have m: "mset ?r = mset files" by simp
  have s: "sorted (map (rank_key sz) ?r)" by (rule sorted_sort_key)
  have st: "\<forall>k. filter (\<lambda>p. rank_key sz p = k) ?r = filter (\<lambda>p. rank_key sz p = k) files"
    by (simp add: sort_key_stable)
  have o: "\<forall>i j. i < j \<and> j < length ?r \<longrightarrow>
      weight (?r ! i) < weight (?r ! j)
      \<or> weight (?r ! i) = weight (?r ! j) \<and> sz (?r ! j) \<le> sz (?r ! i)"
    using sorted_rank_key_nth [OF s] by blast
  have jp: "\<forall>i j. i < length ?r \<and> j < length ?r \<and> weight (?r ! i) = 0 \<and> weight (?r ! j) = 3
      \<longrightarrow> i < j"
  proof (intro allI impI)
    fix i j
    assume a: "i < length ?r \<and> j < length ?r \<and> weight (?r ! i) = 0 \<and> weight (?r ! j) = 3"
    show "i < j"
    proof (rule ccontr)
      assume "\<not> i < j"
      with a have "j < i" by (cases "i = j") auto
      with a o [rule_format, of j i] show False by simp
    qed
  qed
  have "\<forall>p \<in> set ?r. stat_size fs p = Inr (sz p)"
    using assms by simp
  from sort_files_ok [OF this] have i: "sort_files fs ?r = Inr ?r"
    by (simp add: sort_key_id_if_sorted [OF s])
  show "\<exists>r. sort_files fs files = Inr r
          \<and> mset r = mset files
          \<and> sorted (map (rank_key sz) r)
          \<and> (\<forall>k. filter (\<lambda>p. rank_key sz p = k) r = filter (\<lambda>p. rank_key sz p = k) files)
          \<and> (\<forall>i j. i < j \<and> j < length r \<longrightarrow>
                weight (r ! i) < weight (r ! j)
                \<or> weight (r ! i) = weight (r ! j) \<and> sz (r ! j) \<le> sz (r ! i))
          \<and> (\<forall>i j. i < length r \<and> j < length r \<and> weight (r ! i) = 0 \<and> weight (r ! j) = 3
                \<longrightarrow> i < j)
          \<and> sort_files fs r = Inr r"
    by (rule exI [of _ ?r], intro conjI) (fact r m s st o jp i)+
qed

theorem sort_files_stable_rank_witness:
  "stat_size ex_fs f_png = Inr 20 \<and> stat_size ex_fs f_toml = Inr 3
   \<and> stat_size ex_fs f_jar = Inr 10 \<and> stat_size ex_fs f_old = Inr 5
   \<and> weight f_jar = 0 \<and> weight f_old = 0 \<and> weight f_toml = 2 \<and> weight f_png = 3
   \<and> has_suffix f_jar ''.jar'' \<and> has_suffix f_png ''.png''
   \<and> sort_files ex_fs [f_png, f_toml, f_old, f_jar] = Inr [f_jar, f_old, f_toml, f_png]
   \<and> sort_files ex_fs [f_jar, f_old, f_toml, f_png] = Inr [f_jar, f_old, f_toml, f_png]
   \<and> lower (name (Path ''/'' [''inst'', ''mods'', ''A.JAR''])) = lower (name f_jar)
   \<and> weight (Path ''/'' [''inst'', ''mods'', ''A.JAR'']) = 0"
proof -
  have sizes: "stat_size ex_fs f_png = Inr 20" "stat_size ex_fs f_toml = Inr 3"
    "stat_size ex_fs f_jar = Inr 10" "stat_size ex_fs f_old = Inr 5"
    by (simp_all add: ex_defs)
  then have h: "\<forall>p \<in> set [f_png, f_toml, f_old, f_jar]. stat_size ex_fs p = Inr (ex_size p)"
    by (simp add: ex_size_def)
  have w: "weight f_jar = 0" "weight f_old = 0" "weight f_toml = 2" "weight f_png = 3"
    by (simp_all add: rank_defs ex_defs)
  have run: "sort_files ex_fs [f_png, f_toml, f_old, f_jar] = Inr [f_jar, f_old, f_toml, f_png]"
    by (simp add: rank_defs ex_defs)
  note inst = sort_files_stable_rank [OF h]
  note cls = inst [THEN conjunct1, rule_format]
  from cls [of f_jar] w have "has_suffix f_jar ''.jar''"
    by simp
  moreover have "has_suffix f_png ''.png''"
    by (simp add: has_suffix_def rank_defs ex_defs)
  ultimately have sfx: "has_suffix f_jar ''.jar''" "has_suffix f_png ''.png''"
    by simp_all
  from inst [THEN conjunct2, THEN conjunct2] obtain r
    where "sort_files ex_fs [f_png, f_toml, f_old, f_jar] = Inr r" "sort_files ex_fs r = Inr r"
    by blast
  with run
  have again: "sort_files ex_fs [f_jar, f_old, f_toml, f_png] = Inr [f_jar, f_old, f_toml, f_png]"
    by simp
  have up: "lower (name (Path ''/'' [''inst'', ''mods'', ''A.JAR''])) = lower (name f_jar)"
    by (simp add: rank_defs ex_defs)
  from inst [THEN conjunct2, THEN conjunct1, rule_format, OF up] w
  have "weight (Path ''/'' [''inst'', ''mods'', ''A.JAR'']) = 0"
    by simp
  with sizes w sfx run again up show ?thesis by simp
qed

section \<open>Properties of the worker\<close>


lemma attempted_append: "attempted (xs @ ys) = attempted xs @ attempted ys"
  by (induction xs rule: attempted.induct) simp_all

lemma warmings_append: "warmings (xs @ ys) = warmings xs @ warmings ys"
  by (induction xs rule: warmings.induct) simp_all

lemmas step_defs = read_stop_flag_def append_log_def Let_def

lemma warm_files_Cons_cases [consumes 1, case_names stopped stat_raised plan limit warmed failed]:
  assumes "warm_files fs flag dry budget n ((i, fpath) # rest) s = (r, s')"
  obtains
    "flag (clock s)" "r = None" "s' = s\<lparr>clock := Suc (clock s)\<rparr>"
  | e where "\<not> flag (clock s)" "stat_size fs fpath = Inl e" "r = Some e"
      "s' = s\<lparr>clock := Suc (clock s)\<rparr>"
  | sz where "\<not> flag (clock s)" "stat_size fs fpath = Inr sz" "dry"
      "warm_files fs flag dry budget n rest
         (s\<lparr>clock := Suc (clock s), logged := logged s @ [Plan i n fpath sz]\<rparr>) = (r, s')"
  | sz where "\<not> flag (clock s)" "stat_size fs fpath = Inr sz" "\<not> dry"
      "budget \<le> int (warmed_total s)" "r = None"
      "s' = s\<lparr>clock := Suc (clock s), logged := logged s @ [HitLimit]\<rparr>"
  | sz rb where "\<not> flag (clock s)" "stat_size fs fpath = Inr sz" "\<not> dry"
      "\<not> budget \<le> int (warmed_total s)" "warm_file fs fpath 16 = Inr rb"
      "warm_files fs flag dry budget n rest
         (s\<lparr>clock := Suc (clock s), warmed := warmed s + rb,
            warmed_total := warmed_total s + rb,
            logged := logged s @ [Warmed i fpath rb (warmed_total s + rb)],
            progressed := progressed s + 1 + 1\<rparr>) = (r, s')"
  | sz e where "\<not> flag (clock s)" "stat_size fs fpath = Inr sz" "\<not> dry"
      "\<not> budget \<le> int (warmed_total s)" "warm_file fs fpath 16 = Inl e"
      "warm_files fs flag dry budget n rest
         (s\<lparr>clock := Suc (clock s), logged := logged s @ [FileError i fpath e],
            progressed := progressed s + 1\<rparr>) = (r, s')"
proof (cases "flag (clock s)")
  case True
  with assms that(1) show ?thesis by (simp add: step_defs)
next
  case noflag: False
  show ?thesis
  proof (cases "stat_size fs fpath")
    case (Inl e)
    with assms noflag that(2) show ?thesis by (simp add: step_defs)
  next
    case (Inr sz)
    show ?thesis
    proof (cases dry)
      case True
      with assms noflag Inr that(3) [of sz] show ?thesis by (simp add: step_defs)
    next
      case nodry: False
      show ?thesis
      proof (cases "budget \<le> int (warmed_total s)")
        case True
        with assms noflag Inr nodry that(4) [of sz] show ?thesis by (simp add: step_defs)
      next
        case nolimit: False
        show ?thesis
        proof (cases "warm_file fs fpath 16")
          case (Inl e)
          with assms noflag \<open>stat_size fs fpath = Inr sz\<close> nodry nolimit that(6) [of sz e]
          show ?thesis by (simp add: step_defs)
        next
          case rb: (Inr rb)
          with assms noflag Inr nodry nolimit that(5) [of sz rb]
          show ?thesis by (simp add: step_defs)
        qed
      qed
    qed
  qed
qed

lemma warm_files_stop:
  "warm_files fs flag dry budget n files s = (r, s') \<Longrightarrow> flag (clock s + m) \<Longrightarrow>
   length (attempted (logged s')) \<le> length (attempted (logged s)) + m"
proof (induction files arbitrary: s m)
  case Nil
  then show ?case by simp
next
  case (Cons x files)
  obtain i fpath where x: "x = (i, fpath)" by (cases x)
  have m: "\<not> flag (clock s) \<Longrightarrow> \<exists>m'. m = Suc m' \<and> flag (Suc (clock s) + m')"
    using Cons.prems(2) by (cases m) auto
  from Cons.prems(1) [unfolded x] show ?case
  proof (cases rule: warm_files_Cons_cases)
    case stopped
    then show ?thesis by simp
  next
    case (stat_raised e)
    then show ?thesis by simp
  next
    case (plan sz)
    from m [OF plan(1)] obtain m' where "m = Suc m'" "flag (Suc (clock s) + m')" by blast
    with Cons.IH [OF plan(4), of m'] show ?thesis by (simp add: attempted_append)
  next
    case (limit sz)
    then show ?thesis by (simp add: attempted_append)
  next
    case (warmed sz rb)
    from m [OF warmed(1)] obtain m' where "m = Suc m'" "flag (Suc (clock s) + m')" by blast
    with Cons.IH [OF warmed(6), of m'] show ?thesis by (simp add: attempted_append)
  next
    case (failed sz e)
    from m [OF failed(1)] obtain m' where "m = Suc m'" "flag (Suc (clock s) + m')" by blast
    with Cons.IH [OF failed(6), of m'] show ?thesis by (simp add: attempted_append)
  qed
qed


lemma warm_files_invariant:
  assumes run: "warm_files fs flag dry budget n files s = (r, s')"
    and init: "Q s"
    and tick: "\<And>s. Q s \<Longrightarrow> Q (s\<lparr>clock := Suc (clock s)\<rparr>)"
    and on_plan: "\<And>s i p sz. Q s \<Longrightarrow> dry \<Longrightarrow> stat_size fs p = Inr sz \<Longrightarrow>
        Q (s\<lparr>logged := logged s @ [Plan i n p sz]\<rparr>)"
    and on_limit: "\<And>s. Q s \<Longrightarrow> \<not> dry \<Longrightarrow> budget \<le> int (warmed_total s) \<Longrightarrow>
        Q (s\<lparr>logged := logged s @ [HitLimit]\<rparr>)"
    and on_warmed: "\<And>s i p rb. Q s \<Longrightarrow> \<not> dry \<Longrightarrow> \<not> budget \<le> int (warmed_total s) \<Longrightarrow>
        warm_file fs p 16 = Inr rb \<Longrightarrow>
        Q (s\<lparr>warmed := warmed s + rb, warmed_total := warmed_total s + rb,
             logged := logged s @ [Warmed i p rb (warmed_total s + rb)],
             progressed := progressed s + 1 + 1\<rparr>)"
    and on_failed: "\<And>s i p e. Q s \<Longrightarrow> \<not> dry \<Longrightarrow> \<not> budget \<le> int (warmed_total s) \<Longrightarrow>
        warm_file fs p 16 = Inl e \<Longrightarrow>
        Q (s\<lparr>logged := logged s @ [FileError i p e], progressed := progressed s + 1\<rparr>)"
  shows "Q s'"
  using run init
proof (induction files arbitrary: s)
  case Nil
  then show ?case by simp
next
  case (Cons x files)
  obtain i fpath where x: "x = (i, fpath)" by (cases x)
  note q = tick [OF Cons.prems(2)]
  from Cons.prems(1) [unfolded x] show ?case
  proof (cases rule: warm_files_Cons_cases)
    case stopped
    with q show ?thesis by simp
  next
    case (stat_raised e)
    with q show ?thesis by simp
  next
    case (plan sz)
    from on_plan [OF q plan(3) plan(2), of i] have "Q (s\<lparr>clock := Suc (clock s),
        logged := logged s @ [Plan i n fpath sz]\<rparr>)" by simp
    from Cons.IH [OF plan(4) this] show ?thesis .
  next
    case (limit sz)
    from on_limit [OF q limit(3)] limit(4,6) show ?thesis by simp
  next
    case (warmed sz rb)
    from on_warmed [OF q warmed(3) _ warmed(5), of i] warmed(4)
    have "Q (s\<lparr>clock := Suc (clock s), warmed := warmed s + rb,
        warmed_total := warmed_total s + rb,
        logged := logged s @ [Warmed i fpath rb (warmed_total s + rb)],
        progressed := progressed s + 1 + 1\<rparr>)" by simp
    from Cons.IH [OF warmed(6) this] show ?thesis .
  next
    case (failed sz e)
    from on_failed [OF q failed(3) _ failed(5), of i] failed(4)
    have "Q (s\<lparr>clock := Suc (clock s), logged := logged s @ [FileError i fpath e],
        progressed := progressed s + 1\<rparr>)" by simp
    from Cons.IH [OF failed(6) this] show ?thesis .
  qed
qed

lemma warm_targets_invariant:
  assumes run: "warm_targets fs flag dry budget targets s = (r, s')"
    and init: "Q s"
    and tick: "\<And>s. Q s \<Longrightarrow> Q (s\<lparr>clock := Suc (clock s)\<rparr>)"
    and start: "\<And>s t. Q s \<Longrightarrow> Q (s\<lparr>logged := logged s @ [Start t]\<rparr>)"
    and reset: "\<And>s. Q s \<Longrightarrow> Q (s\<lparr>warmed := 0\<rparr>)"
    and finish: "\<And>s t. Q s \<Longrightarrow> Q (s\<lparr>logged := logged s @ [Done t (warmed s)]\<rparr>)"
    and plan: "\<And>s i n p sz. Q s \<Longrightarrow> dry \<Longrightarrow> stat_size fs p = Inr sz \<Longrightarrow>
        Q (s\<lparr>logged := logged s @ [Plan i n p sz]\<rparr>)"
    and limit: "\<And>s. Q s \<Longrightarrow> \<not> dry \<Longrightarrow> budget \<le> int (warmed_total s) \<Longrightarrow>
        Q (s\<lparr>logged := logged s @ [HitLimit]\<rparr>)"
    and warmed: "\<And>s i p rb. Q s \<Longrightarrow> \<not> dry \<Longrightarrow> \<not> budget \<le> int (warmed_total s) \<Longrightarrow>
        warm_file fs p 16 = Inr rb \<Longrightarrow>
        Q (s\<lparr>warmed := warmed s + rb, warmed_total := warmed_total s + rb,
             logged := logged s @ [Warmed i p rb (warmed_total s + rb)],
             progressed := progressed s + 1 + 1\<rparr>)"
    and failed: "\<And>s i p e. Q s \<Longrightarrow> \<not> dry \<Longrightarrow> \<not> budget \<le> int (warmed_total s) \<Longrightarrow>
        warm_file fs p 16 = Inl e \<Longrightarrow>
        Q (s\<lparr>logged := logged s @ [FileError i p e], progressed := progressed s + 1\<rparr>)"
  shows "Q s'"
  using run init
proof (induction targets arbitrary: s)
  case Nil
  then show ?case by simp
next
  case (Cons t ts)
  note q = tick [OF Cons.prems(2)]
  show ?case
  proof (cases "flag (clock s)")
    case True
    with Cons.prems(1) q show ?thesis by (simp add: step_defs)
  next
    case noflag: False
    let ?s2 = "s\<lparr>clock := Suc (clock s), logged := logged s @ [Start t]\<rparr>"
    from start [OF q, of t] have q2: "Q ?s2" by simp
    show ?thesis
    proof (cases "sort_files fs (iter_files fs t DEFAULT_PATTERNS)")
      case (Inl e)
      with Cons.prems(1) noflag have "s' = ?s2"
        by (simp add: step_defs)
      with q2 show ?thesis by simp
    next
      case (Inr files)
      obtain r3 s3 where w: "warm_files fs flag dry budget (length files) (enumerate1 files)
          (?s2\<lparr>warmed := 0\<rparr>) = (r3, s3)"
        by (cases "warm_files fs flag dry budget (length files) (enumerate1 files)
          (?s2\<lparr>warmed := 0\<rparr>)")
      have q3: "Q s3"
        by (rule warm_files_invariant [OF w reset [OF q2] tick plan limit warmed failed])
      show ?thesis
      proof (cases r3)
        case (Some e)
        with Cons.prems(1) noflag Inr w have "s' = s3"
          by (simp add: step_defs)
        with q3 show ?thesis by simp
      next
        case None
        with Cons.prems(1) noflag Inr w
        have "warm_targets fs flag dry budget ts (s3\<lparr>logged := logged s3 @ [Done t (warmed s3)]\<rparr>)
            = (r, s')"
          by (simp add: step_defs)
        from Cons.IH [OF this finish [OF q3]] show ?thesis .
      qed
    qed
  qed
qed

lemma worker_invariant:
  assumes run: "worker fs flag dry budget targets = (out, s')"
    and init: "\<And>m. Q \<lparr>warmed_total = 0, warmed = 0, progressed = 0, progress_max = m,
        logged = [], clock = 0\<rparr>"
    and tick: "\<And>s. Q s \<Longrightarrow> Q (s\<lparr>clock := Suc (clock s)\<rparr>)"
    and start: "\<And>s t. Q s \<Longrightarrow> Q (s\<lparr>logged := logged s @ [Start t]\<rparr>)"
    and reset: "\<And>s. Q s \<Longrightarrow> Q (s\<lparr>warmed := 0\<rparr>)"
    and finish: "\<And>s t. Q s \<Longrightarrow> Q (s\<lparr>logged := logged s @ [Done t (warmed s)]\<rparr>)"
    and summary: "\<And>s. Q s \<Longrightarrow> Q (s\<lparr>logged := logged s @ [AllDone (warmed_total s)]\<rparr>)"
    and plan: "\<And>s i n p sz. Q s \<Longrightarrow> dry \<Longrightarrow> stat_size fs p = Inr sz \<Longrightarrow>
        Q (s\<lparr>logged := logged s @ [Plan i n p sz]\<rparr>)"
    and limit: "\<And>s. Q s \<Longrightarrow> \<not> dry \<Longrightarrow> budget \<le> int (warmed_total s) \<Longrightarrow>
        Q (s\<lparr>logged := logged s @ [HitLimit]\<rparr>)"
    and warmed: "\<And>s i p rb. Q s \<Longrightarrow> \<not> dry \<Longrightarrow> \<not> budget \<le> int (warmed_total s) \<Longrightarrow>
        warm_file fs p 16 = Inr rb \<Longrightarrow>
        Q (s\<lparr>warmed := warmed s + rb, warmed_total := warmed_total s + rb,
             logged := logged s @ [Warmed i p rb (warmed_total s + rb)],
             progressed := progressed s + 1 + 1\<rparr>)"
    and failed: "\<And>s i p e. Q s \<Longrightarrow> \<not> dry \<Longrightarrow> \<not> budget \<le> int (warmed_total s) \<Longrightarrow>
        warm_file fs p 16 = Inl e \<Longrightarrow>
        Q (s\<lparr>logged := logged s @ [FileError i p e], progressed := progressed s + 1\<rparr>)"
  shows "Q s'"
proof -
  let ?s0 = "\<lparr>warmed_total = 0, warmed = 0, progressed = 0,
      progress_max = max 1 (sum_list (map (\<lambda>t. length (iter_files fs t DEFAULT_PATTERNS)) targets)),
      logged = [], clock = 0\<rparr>"
  obtain r1 s1 where w: "warm_targets fs flag dry budget targets ?s0 = (r1, s1)"
    by (cases "warm_targets fs flag dry budget targets ?s0")
  have q1: "Q s1"
    by (rule warm_targets_invariant [OF w init tick start reset finish plan limit warmed failed])
  show ?thesis
  proof (cases r1)
    case None
    with run w have "s' = s1\<lparr>logged := logged s1 @ [AllDone (warmed_total s1)]\<rparr>"
      by (simp add: worker_def step_defs)
    with summary [OF q1] show ?thesis by simp
  next
    case (Some e)
    with run w have "s' = s1" by (simp add: worker_def step_defs)
    with q1 show ?thesis by simp
  qed
qed


lemma budget_inv_other:
  assumes "budget_inv fs budget s" and "warmings [ev] = []"
  shows "budget_inv fs budget (s\<lparr>logged := logged s @ [ev]\<rparr>)"
  using assms by (simp add: budget_inv_def totals_def last_warmed_def warmings_append)

lemma budget_inv_warmed:
  assumes "budget_inv fs budget s" and "\<not> budget \<le> int (warmed_total s)"
    and "warm_file fs p 16 = Inr rb"
  shows "budget_inv fs budget
     (s\<lparr>warmed := w, warmed_total := warmed_total s + rb,
        logged := logged s @ [Warmed i p rb (warmed_total s + rb)], progressed := g\<rparr>)"
  using assms
  by (auto simp: budget_inv_def totals_def last_warmed_def warmings_append sorted_append)

text \<open>
  C2: in every session with a budget \<open>0 \<le> B\<close>, the running totals that the log reports
  never decrease and none exceeds the final total; every file warmed was handed to
  \<open>warm_file\<close> when the total was still below \<open>B\<close>, and was read whole (the budget
  is compared before the file is opened, and \<open>warm_file\<close> does not know it); and the
  final total is at most \<open>B\<close> plus the bytes read from the one file warmed last.
\<close>

theorem budget_respected:
  assumes "0 \<le> budget" and "worker fs flag dry budget targets = (out, s')"
  shows "sorted (totals (logged s'))
     \<and> (\<forall>tot \<in> set (totals (logged s')). tot \<le> warmed_total s')
     \<and> (\<forall>(p, rb, tot) \<in> set (warmings (logged s')).
          warm_file fs p 16 = Inr rb \<and> rb \<le> tot \<and> int tot - int rb < budget)
     \<and> int (warmed_total s') \<le> budget + int (last_warmed (logged s'))"
proof -
  have "budget_inv fs budget s'"
  proof (rule worker_invariant [OF assms(2)])
    show "budget_inv fs budget \<lparr>warmed_total = 0, warmed = 0, progressed = 0, progress_max = m,
        logged = [], clock = 0\<rparr>" for m
      using assms(1) by (simp add: budget_inv_def totals_def last_warmed_def)
  next
    fix s assume "budget_inv fs budget s"
    then show "budget_inv fs budget (s\<lparr>clock := Suc (clock s)\<rparr>)"
      by (simp add: budget_inv_def)
  next
    fix s assume "budget_inv fs budget s"
    then show "budget_inv fs budget (s\<lparr>warmed := 0\<rparr>)"
      by (simp add: budget_inv_def)
  next
    fix s i p rb
    assume "budget_inv fs budget s" "\<not> budget \<le> int (warmed_total s)"
      "warm_file fs p 16 = Inr rb"
    then show "budget_inv fs budget
       (s\<lparr>warmed := warmed s + rb, warmed_total := warmed_total s + rb,
          logged := logged s @ [Warmed i p rb (warmed_total s + rb)],
          progressed := progressed s + 1 + 1\<rparr>)"
      by (rule budget_inv_warmed)
  next
    fix s i p e
    assume "budget_inv fs budget s"
    from budget_inv_other [OF this, of "FileError i p e"]
    show "budget_inv fs budget
       (s\<lparr>logged := logged s @ [FileError i p e], progressed := progressed s + 1\<rparr>)"
      by (simp add: budget_inv_def)
  qed (simp_all add: budget_inv_other)
  then show ?thesis by (simp add: budget_inv_def)
qed

lemmas run_defs =
  worker_def step_defs enumerate1_def warm_file_def chunk_bytes_def raw_read_def
  PY_SSIZE_T_MAX_def PY_READ_MAX_def read_loop.simps iter_defs rank_defs ex_defs

lemma ex_run_budget_5:
  "worker ex_fs (\<lambda>k. False) False 5 [ex_root] =
     (Completed,
      \<lparr>warmed_total = 10, warmed = 10, progressed = 2, progress_max = 3,
       logged = [Start ex_root, Warmed 1 f_jar 10 10, HitLimit, Done ex_root 10, AllDone 10],
       clock = 3\<rparr>)"
  by (simp add: run_defs)

theorem budget_respected_witness:
  "(0 :: int) \<le> 5
   \<and> fst (worker ex_fs (\<lambda>k. False) False 5 [ex_root]) = Completed
   \<and> logged (snd (worker ex_fs (\<lambda>k. False) False 5 [ex_root])) =
       [Start ex_root, Warmed 1 f_jar 10 10, HitLimit, Done ex_root 10, AllDone 10]
   \<and> warmed_total (snd (worker ex_fs (\<lambda>k. False) False 5 [ex_root])) = 10
   \<and> last_warmed (logged (snd (worker ex_fs (\<lambda>k. False) False 5 [ex_root]))) = 10
   \<and> warm_file ex_fs f_jar 16 = Inr 10"
proof -
  let ?s = "\<lparr>warmed_total = 10, warmed = 10, progressed = 2, progress_max = 3,
       logged = [Start ex_root, Warmed 1 f_jar 10 10, HitLimit, Done ex_root 10, AllDone 10],
       clock = 3\<rparr>"
  have b: "(0 :: int) \<le> 5" by simp
  from budget_respected [OF b ex_run_budget_5]
  have "warm_file ex_fs f_jar 16 = Inr 10"
    by simp
  moreover have "last_warmed (logged ?s) = 10"
    by (simp add: last_warmed_def)
  ultimately show ?thesis
    by (simp add: ex_run_budget_5)
qed

lemma warm_files_stopped_at_once:
  assumes "warm_files fs flag dry budget n files s = (r, s')" and "flag (clock s)"
  shows "logged s' = logged s"
proof (cases files)
  case Nil
  with assms show ?thesis by simp
next
  case (Cons x rest)
  obtain i fpath where "x = (i, fpath)" by (cases x)
  with assms Cons show ?thesis by (auto simp: step_defs)
qed

text \<open>
  C5: the flag is read once before each file of a target, and once set it stays set. When
  it is set after \<open>K\<close> files of the target have completed, the read before file
  \<open>K + 2\<close> at the latest sees it (file \<open>K + 1\<close> may be in flight when it is set): that
  is the read number \<open>clock s + K + 1\<close>, for a loop entered in state \<open>s\<close>. Then the loop
  hands at most \<open>K + 1\<close> files of the target to \<open>warm_file\<close>. And a read that sees the
  flag set ends the loop at once: no file is opened after it.
\<close>

theorem stop_bounds_opened_files:
  assumes "warm_files fs flag dry budget n files s = (r, s')"
  shows "(flag (clock s + K + 1) \<longrightarrow>
            length (attempted (logged s')) \<le> length (attempted (logged s)) + (K + 1))
     \<and> (flag (clock s) \<longrightarrow> attempted (logged s') = attempted (logged s))"
  using warm_files_stop [OF assms, of "K + 1"] warm_files_stopped_at_once [OF assms]
  by simp

lemma ex_run_stopped:
  "warm_files ex_fs (\<lambda>k. 2 \<le> k) False 100 3 (enumerate1 [f_jar, f_toml, f_png]) ex_started =
     (None, \<lparr>warmed_total = 10, warmed = 10, progressed = 2, progress_max = 3,
       logged = [Start ex_root, Warmed 1 f_jar 10 10], clock = 3\<rparr>)"
  by (simp add: run_defs ex_started_def)

lemma ex_run_stopped_at_once:
  "warm_files ex_fs (\<lambda>k. 1 \<le> k) False 100 3 (enumerate1 [f_jar, f_toml, f_png]) ex_started =
     (None, \<lparr>warmed_total = 0, warmed = 0, progressed = 0, progress_max = 3,
       logged = [Start ex_root], clock = 2\<rparr>)"
  by (simp add: run_defs ex_started_def)

theorem stop_bounds_opened_files_witness:
  "(\<lambda>k. 2 \<le> k) (clock ex_started + 0 + 1)
   \<and> \<not> (\<lambda>k :: nat. 2 \<le> k) (clock ex_started)
   \<and> attempted (logged ex_started) = []
   \<and> attempted (logged (snd (warm_files ex_fs (\<lambda>k. 2 \<le> k) False 100 3
         (enumerate1 [f_jar, f_toml, f_png]) ex_started))) = [f_jar]
   \<and> length (attempted (logged (snd (warm_files ex_fs (\<lambda>k. 2 \<le> k) False 100 3
         (enumerate1 [f_jar, f_toml, f_png]) ex_started)))) \<le> 0 + 1
   \<and> (\<lambda>k. 1 \<le> k) (clock ex_started)
   \<and> attempted (logged (snd (warm_files ex_fs (\<lambda>k. 1 \<le> k) False 100 3
         (enumerate1 [f_jar, f_toml, f_png]) ex_started))) = []"
proof -
  have f: "(\<lambda>k. 2 \<le> k) (clock ex_started + 0 + 1)"
    and g: "(\<lambda>k. 1 \<le> k) (clock ex_started)"
    by (simp_all add: ex_started_def)
  from stop_bounds_opened_files [OF ex_run_stopped, of 0] f
  have "length (attempted [Start ex_root, Warmed 1 f_jar 10 10])
      \<le> length (attempted (logged ex_started)) + (0 + 1)"
    by simp
  moreover from stop_bounds_opened_files [OF ex_run_stopped_at_once, of 0] g
  have "attempted [Start ex_root] = attempted (logged ex_started)"
    by simp
  ultimately show ?thesis
    using f g unfolding ex_run_stopped ex_run_stopped_at_once by (simp add: ex_started_def)
qed

lemma worker_reads_nothing:
  assumes "dry \<or> budget \<le> 0" and "worker fs flag dry budget targets = (out, s')"
  shows "attempted (logged s') = [] \<and> warmed_total s' = 0"
  by (rule worker_invariant [OF assms(2)]) (use assms(1) in \<open>auto simp: attempted_append\<close>)

lemma warm_files_dry_run:
  assumes "\<forall>k. \<not> flag k" and "\<forall>(i, p) \<in> set files. stat_size fs p = Inr (sz p)"
  shows "warm_files fs flag True budget n files s =
     (None, s\<lparr>clock := clock s + length files,
              logged := logged s @ map (\<lambda>(i, p). Plan i n p (sz p)) files\<rparr>)"
  using assms(2)
proof (induction files arbitrary: s)
  case Nil
  then show ?case by simp
next
  case (Cons x files)
  obtain i p where x: "x = (i, p)" by (cases x)
  with Cons.prems have "stat_size fs p = Inr (sz p)"
    and "\<forall>(i, p) \<in> set files. stat_size fs p = Inr (sz p)" by auto
  with assms(1) Cons.IH x show ?case
    by (simp add: step_defs)
qed

lemma warm_files_limit:
  assumes "\<not> flag (clock s)" and "\<not> isl (stat_size fs p)"
    and "budget \<le> int (warmed_total s)"
  shows "warm_files fs flag False budget n ((i, p) # rest) s =
     (None, s\<lparr>clock := Suc (clock s), logged := logged s @ [HitLimit]\<rparr>)"
  using assms by (cases "stat_size fs p") (simp_all add: step_defs)

lemma enumerate1_Nil_iff: "enumerate1 xs = [] \<longleftrightarrow> xs = []"
  by (cases xs) (simp_all add: enumerate1_def upt_rec)

lemma enumerate1_snd: "(i, p) \<in> set (enumerate1 xs) \<Longrightarrow> p \<in> set xs"
  by (auto simp: enumerate1_def dest: set_zip_rightD)

lemma enumerate1_mem: "p \<in> set xs \<Longrightarrow> \<exists>i. (i, p) \<in> set (enumerate1 xs)"
proof -
  assume "p \<in> set xs"
  then obtain k where k: "k < length xs" "xs ! k = p"
    by (auto simp: in_set_conv_nth)
  then have "(Suc k, p) = zip [1 ..< Suc (length xs)] xs ! k"
    by (simp add: nth_upt del: upt_Suc)
  moreover from k have "k < length (zip [1 ..< Suc (length xs)] xs)" by simp
  ultimately have "(Suc k, p) \<in> set (zip [1 ..< Suc (length xs)] xs)"
    by (metis nth_mem)
  then show ?thesis unfolding enumerate1_def by blast
qed

lemma warm_targets_dry_run:
  assumes "\<forall>k. \<not> flag k"
    and "\<forall>t \<in> set targets. \<forall>p \<in> set (iter_files fs t DEFAULT_PATTERNS). stat_size fs p = Inr (sz p)"
  shows "fst (warm_targets fs flag True budget targets s) = None
     \<and> logged (snd (warm_targets fs flag True budget targets s)) =
         logged s @ concat (map (plan_log fs sz) targets)"
  using assms(2)
proof (induction targets arbitrary: s)
  case Nil
  then show ?case by simp
next
  case (Cons t ts)
  let ?files = "iter_files fs t DEFAULT_PATTERNS"
  let ?ranked = "sort_key (rank_key sz) ?files"
  from Cons.prems have ok: "\<forall>p \<in> set ?files. stat_size fs p = Inr (sz p)" by simp
  have sf: "sort_files fs ?files = Inr ?ranked"
    by (rule sort_files_ok [OF ok])
  have "\<forall>(i, p) \<in> set (enumerate1 ?ranked). stat_size fs p = Inr (sz p)"
    using ok by (auto dest: enumerate1_snd)
  note wf = warm_files_dry_run [OF assms(1) this]
  from Cons.prems have "\<forall>t \<in> set ts. \<forall>p \<in> set (iter_files fs t DEFAULT_PATTERNS).
      stat_size fs p = Inr (sz p)" by simp
  note ih = Cons.IH [OF this]
  from assms(1) have nf: "\<not> flag (clock s)" by simp
  show ?case
    by (simp add: step_defs sf wf ih plan_log_def nf)
qed

lemma warm_targets_limit:
  assumes "\<forall>k. \<not> flag k"
    and "\<forall>t \<in> set targets. \<forall>p \<in> set (iter_files fs t DEFAULT_PATTERNS). stat_size fs p = Inr (sz p)"
    and "budget \<le> int (warmed_total s)"
  shows "fst (warm_targets fs flag False budget targets s) = None
     \<and> logged (snd (warm_targets fs flag False budget targets s)) =
         logged s @ concat (map (limit_log fs) targets)"
  using assms(2,3)
proof (induction targets arbitrary: s)
  case Nil
  then show ?case by simp
next
  case (Cons t ts)
  let ?files = "iter_files fs t DEFAULT_PATTERNS"
  let ?ranked = "sort_key (rank_key sz) ?files"
  let ?s2 = "s\<lparr>clock := Suc (clock s), logged := logged s @ [Start t], warmed := 0\<rparr>"
  from Cons.prems have ok: "\<forall>p \<in> set ?files. stat_size fs p = Inr (sz p)" by simp
  have sf: "sort_files fs ?files = Inr ?ranked"
    by (rule sort_files_ok [OF ok])
  from Cons.prems have "\<forall>t \<in> set ts. \<forall>p \<in> set (iter_files fs t DEFAULT_PATTERNS).
      stat_size fs p = Inr (sz p)" by simp
  note ih = Cons.IH [OF this]
  from assms(1) have nf: "\<not> flag (clock s)" by simp
  show ?case
  proof (cases "?files = []")
    case True
    with Cons.prems(2) show ?thesis
      by (simp add: step_defs sort_files_def enumerate1_def ih limit_log_def nf)
  next
    case False
    then have "?ranked \<noteq> []" by (metis length_sort length_0_conv)
    then have "enumerate1 ?ranked \<noteq> []" by (simp add: enumerate1_Nil_iff)
    then obtain i p rest where e: "enumerate1 ?ranked = (i, p) # rest"
      by (cases "enumerate1 ?ranked") auto
    then have "p \<in> set ?files"
      using enumerate1_snd [of i p ?ranked] by simp
    with ok have st: "stat_size fs p = Inr (sz p)" by blast
    from st have st': "\<not> isl (stat_size fs p)" by simp
    from assms(1) have nf1: "\<not> flag (Suc (clock s))" by simp
    from False Cons.prems(2) show ?thesis
      by (simp add: step_defs sf e warm_files_limit st' ih limit_log_def nf nf1
          del: warm_files.simps)
  qed
qed


lemma worker_unfold:
  "worker fs flag dry budget targets =
     (case warm_targets fs flag dry budget targets
        \<lparr>warmed_total = 0, warmed = 0, progressed = 0,
         progress_max = max 1 (sum_list (map (\<lambda>t. length (iter_files fs t DEFAULT_PATTERNS)) targets)),
         logged = [], clock = 0\<rparr> of
        (Some e, s) \<Rightarrow> (Raised e, s)
      | (None, s) \<Rightarrow> (Completed, s\<lparr>logged := logged s @ [AllDone (warmed_total s)]\<rparr>))"
  by (simp add: worker_def step_defs split: prod.splits option.splits)

lemma worker_completed:
  assumes "fst (warm_targets fs flag dry budget targets
      \<lparr>warmed_total = 0, warmed = 0, progressed = 0,
       progress_max = max 1 (sum_list (map (\<lambda>t. length (iter_files fs t DEFAULT_PATTERNS)) targets)),
       logged = [], clock = 0\<rparr>) = None"
    and "worker fs flag dry budget targets = (out, s')"
  shows "out = Completed
     \<and> logged s' = logged (snd (warm_targets fs flag dry budget targets
          \<lparr>warmed_total = 0, warmed = 0, progressed = 0,
           progress_max = max 1 (sum_list (map (\<lambda>t. length (iter_files fs t DEFAULT_PATTERNS)) targets)),
           logged = [], clock = 0\<rparr>)) @ [AllDone (warmed_total s')]"
  using assms unfolding worker_unfold by (auto split: prod.splits option.splits)

text \<open>
  C6, as amended: in a session that is not a dry run and has a budget of 0 bytes, no file is
  handed to \<open>warm_file\<close> and the total stays 0. Whenever the loop over the files of a
  target reaches a file (the flag is not seen set and the size of the file can be read), it
  logs the limit and ends there, before the file would have been opened. In a session that
  is not cancelled and whose sizes can be read, the log is, for each target in turn, its
  start, the limit when the target has a candidate, and its end; then the summary.
\<close>

theorem zero_budget_reads_nothing:
  assumes "worker fs flag False 0 targets = (out, s')"
  shows "attempted (logged s') = [] \<and> warmed_total s' = 0
     \<and> (\<forall>s n i p rest sz. \<not> flag (clock s) \<and> stat_size fs p = Inr sz \<longrightarrow>
           warm_files fs flag False 0 n ((i, p) # rest) s =
             (None, s\<lparr>clock := Suc (clock s), logged := logged s @ [HitLimit]\<rparr>))
     \<and> ((\<forall>k. \<not> flag k)
          \<and> (\<forall>t \<in> set targets. \<forall>p \<in> set (iter_files fs t DEFAULT_PATTERNS).
                stat_size fs p = Inr (sz p))
         \<longrightarrow> out = Completed
             \<and> logged s' = concat (map (limit_log fs) targets) @ [AllDone 0])"
proof (intro conjI allI impI)
  from worker_reads_nothing [OF _ assms]
  show n: "attempted (logged s') = []" and z: "warmed_total s' = 0" by simp_all
  show "warm_files fs flag False 0 n ((i, p) # rest) s =
      (None, s\<lparr>clock := Suc (clock s), logged := logged s @ [HitLimit]\<rparr>)"
    if "\<not> flag (clock s) \<and> stat_size fs p = Inr sz" for s n i p rest sz
    using that by (intro warm_files_limit) simp_all
  assume a: "(\<forall>k. \<not> flag k)
      \<and> (\<forall>t \<in> set targets. \<forall>p \<in> set (iter_files fs t DEFAULT_PATTERNS).
            stat_size fs p = Inr (sz p))"
  note wt = warm_targets_limit [OF a [THEN conjunct1] a [THEN conjunct2],
      of 0 "\<lparr>warmed_total = 0, warmed = 0, progressed = 0,
       progress_max = max 1 (sum_list (map (\<lambda>t. length (iter_files fs t DEFAULT_PATTERNS)) targets)),
       logged = [], clock = 0\<rparr>"]
  from worker_completed [OF _ assms] wt z
  show "out = Completed" and "logged s' = concat (map (limit_log fs) targets) @ [AllDone 0]"
    by simp_all
qed

lemma ex_run_budget_0:
  "worker ex_fs (\<lambda>k. False) False 0 [ex_root] =
     (Completed,
      \<lparr>warmed_total = 0, warmed = 0, progressed = 0, progress_max = 3,
       logged = [Start ex_root, HitLimit, Done ex_root 0, AllDone 0], clock = 2\<rparr>)"
  by (simp add: run_defs)

theorem zero_budget_reads_nothing_witness:
  "iter_files ex_fs ex_root DEFAULT_PATTERNS = [f_jar, f_toml, f_png]
   \<and> stat_size ex_fs f_jar = Inr 10 \<and> stat_size ex_fs f_toml = Inr 3
   \<and> stat_size ex_fs f_png = Inr 20
   \<and> fst (worker ex_fs (\<lambda>k. False) False 0 [ex_root]) = Completed
   \<and> logged (snd (worker ex_fs (\<lambda>k. False) False 0 [ex_root])) =
       [Start ex_root, HitLimit, Done ex_root 0, AllDone 0]
   \<and> attempted (logged (snd (worker ex_fs (\<lambda>k. False) False 0 [ex_root]))) = []
   \<and> warm_files ex_fs (\<lambda>k. False) False 0 3 ((1, f_jar) # [(2, f_toml), (3, f_png)]) ex_started =
       (None, ex_started\<lparr>clock := Suc (clock ex_started),
          logged := logged ex_started @ [HitLimit]\<rparr>)"
proof -
  have sizes: "stat_size ex_fs f_jar = Inr 10" "stat_size ex_fs f_toml = Inr 3"
    "stat_size ex_fs f_png = Inr 20"
    by (simp_all add: ex_defs)
  then have ok: "\<forall>t \<in> set [ex_root]. \<forall>p \<in> set (iter_files ex_fs t DEFAULT_PATTERNS).
      stat_size ex_fs p = Inr (ex_size p)"
    by (simp add: ex_iter_files ex_size_def)
  note inst = zero_budget_reads_nothing [OF ex_run_budget_0, where sz = ex_size]
  from inst have "attempted [Start ex_root, HitLimit, Done ex_root 0, AllDone 0] = []"
    by simp
  moreover from inst [THEN conjunct2, THEN conjunct2, THEN conjunct1, rule_format,
      where s = ex_started and p = f_jar and sz = 10 and n = 3 and i = 1
        and rest = "[(2, f_toml), (3, f_png)]"] sizes(1)
  have "warm_files ex_fs (\<lambda>k. False) False 0 3 ((1, f_jar) # [(2, f_toml), (3, f_png)]) ex_started =
       (None, ex_started\<lparr>clock := Suc (clock ex_started),
          logged := logged ex_started @ [HitLimit]\<rparr>)"
    by simp
  moreover from inst [THEN conjunct2, THEN conjunct2, THEN conjunct2] ok
  have "[Start ex_root, HitLimit, Done ex_root 0, AllDone 0] =
      concat (map (limit_log ex_fs) [ex_root]) @ [AllDone 0]"
    by simp
  ultimately show ?thesis
    using sizes by (simp add: ex_run_budget_0 ex_iter_files)
qed


text \<open>
  C6 as stated fails for a session that is cancelled: the flag is read before the budget is
  compared, so with the flag set before the first file the session with budget 0 on
  \<open>/inst\<close> has three candidates and logs no limit.
\<close>

theorem zero_budget_stopped_logs_no_limit:
  "iter_files ex_fs ex_root DEFAULT_PATTERNS = [f_jar, f_toml, f_png]
   \<and> worker ex_fs (\<lambda>k. 1 \<le> k) False 0 [ex_root] =
       (Completed,
        \<lparr>warmed_total = 0, warmed = 0, progressed = 0, progress_max = 3,
         logged = [Start ex_root, Done ex_root 0, AllDone 0], clock = 2\<rparr>)"
  by (simp add: run_defs)

lemma plan_log_mem:
  assumes "p \<in> set (iter_files fs t DEFAULT_PATTERNS)"
  shows "\<exists>i. Plan i (length (iter_files fs t DEFAULT_PATTERNS)) p (sz p) \<in> set (plan_log fs sz t)"
proof -
  from assms have "p \<in> set (sort_key (rank_key sz) (iter_files fs t DEFAULT_PATTERNS))"
    by simp
  from enumerate1_mem [OF this] obtain i
    where "(i, p) \<in> set (enumerate1 (sort_key (rank_key sz) (iter_files fs t DEFAULT_PATTERNS)))"
    by blast
  then have "Plan i (length (iter_files fs t DEFAULT_PATTERNS)) p (sz p) \<in> set (plan_log fs sz t)"
    by (force simp: plan_log_def Let_def)
  then show ?thesis ..
qed

text \<open>
  C7, as amended: in a dry run no file is handed to \<open>warm_file\<close> and the total stays at
  its initial value 0 (the file system is an argument that no function of the session
  returns or updates: no content changes). When the session is not cancelled and the sizes
  can be read, the log holds, for each target in turn, one planned line with the path and
  the size for every enumerated candidate, in ranked order.
\<close>

theorem dry_run_plans_every_candidate:
  assumes "worker fs flag True budget targets = (out, s')"
  shows "attempted (logged s') = [] \<and> warmed_total s' = 0
     \<and> ((\<forall>k. \<not> flag k)
          \<and> (\<forall>t \<in> set targets. \<forall>p \<in> set (iter_files fs t DEFAULT_PATTERNS).
                stat_size fs p = Inr (sz p))
         \<longrightarrow> out = Completed
             \<and> logged s' = concat (map (plan_log fs sz) targets) @ [AllDone 0]
             \<and> (\<forall>t \<in> set targets. \<forall>p \<in> set (iter_files fs t DEFAULT_PATTERNS).
                   \<exists>i. Plan i (length (iter_files fs t DEFAULT_PATTERNS)) p (sz p)
                        \<in> set (logged s')))"
proof (intro conjI impI)
  from worker_reads_nothing [OF _ assms]
  show n: "attempted (logged s') = []" and z: "warmed_total s' = 0" by simp_all
  assume a: "(\<forall>k. \<not> flag k)
      \<and> (\<forall>t \<in> set targets. \<forall>p \<in> set (iter_files fs t DEFAULT_PATTERNS).
            stat_size fs p = Inr (sz p))"
  note wt = warm_targets_dry_run [OF a [THEN conjunct1] a [THEN conjunct2],
      of budget "\<lparr>warmed_total = 0, warmed = 0, progressed = 0,
       progress_max = max 1 (sum_list (map (\<lambda>t. length (iter_files fs t DEFAULT_PATTERNS)) targets)),
       logged = [], clock = 0\<rparr>"]
  from worker_completed [OF _ assms] wt z
  show "out = Completed" and l: "logged s' = concat (map (plan_log fs sz) targets) @ [AllDone 0]"
    by simp_all
  show "\<forall>t \<in> set targets. \<forall>p \<in> set (iter_files fs t DEFAULT_PATTERNS).
      \<exists>i. Plan i (length (iter_files fs t DEFAULT_PATTERNS)) p (sz p) \<in> set (logged s')"
  proof (intro ballI)
    fix t p
    assume t: "t \<in> set targets" and "p \<in> set (iter_files fs t DEFAULT_PATTERNS)"
    from plan_log_mem [OF this(2), of sz] obtain i
      where "Plan i (length (iter_files fs t DEFAULT_PATTERNS)) p (sz p) \<in> set (plan_log fs sz t)"
      by blast
    with t have "Plan i (length (iter_files fs t DEFAULT_PATTERNS)) p (sz p) \<in> set (logged s')"
      unfolding l by auto
    then show "\<exists>i. Plan i (length (iter_files fs t DEFAULT_PATTERNS)) p (sz p) \<in> set (logged s')" ..
  qed
qed

lemma ex_run_dry:
  "worker ex_fs (\<lambda>k. False) True 100 [ex_root] =
     (Completed,
      \<lparr>warmed_total = 0, warmed = 0, progressed = 0, progress_max = 3,
       logged = [Start ex_root, Plan 1 3 f_jar 10, Plan 2 3 f_toml 3, Plan 3 3 f_png 20,
                 Done ex_root 0, AllDone 0],
       clock = 4\<rparr>)"
  by (simp add: run_defs)

theorem dry_run_plans_every_candidate_witness:
  "iter_files ex_fs ex_root DEFAULT_PATTERNS = [f_jar, f_toml, f_png]
   \<and> stat_size ex_fs f_jar = Inr 10 \<and> stat_size ex_fs f_toml = Inr 3
   \<and> stat_size ex_fs f_png = Inr 20
   \<and> fst (worker ex_fs (\<lambda>k. False) True 100 [ex_root]) = Completed
   \<and> logged (snd (worker ex_fs (\<lambda>k. False) True 100 [ex_root])) =
       [Start ex_root, Plan 1 3 f_jar 10, Plan 2 3 f_toml 3, Plan 3 3 f_png 20,
        Done ex_root 0, AllDone 0]
   \<and> concat (map (plan_log ex_fs ex_size) [ex_root]) @ [AllDone 0] =
       [Start ex_root, Plan 1 3 f_jar 10, Plan 2 3 f_toml 3, Plan 3 3 f_png 20,
        Done ex_root 0, AllDone 0]
   \<and> warmed_total (snd (worker ex_fs (\<lambda>k. False) True 100 [ex_root])) = 0"
proof -
  have sizes: "stat_size ex_fs f_jar = Inr 10" "stat_size ex_fs f_toml = Inr 3"
    "stat_size ex_fs f_png = Inr 20"
    by (simp_all add: ex_defs)
  then have ok: "\<forall>t \<in> set [ex_root]. \<forall>p \<in> set (iter_files ex_fs t DEFAULT_PATTERNS).
      stat_size ex_fs p = Inr (ex_size p)"
    by (simp add: ex_iter_files ex_size_def)
  note inst = dry_run_plans_every_candidate [OF ex_run_dry, where sz = ex_size]
  from inst [THEN conjunct2, THEN conjunct2] ok
  have "[Start ex_root, Plan 1 3 f_jar 10, Plan 2 3 f_toml 3, Plan 3 3 f_png 20,
        Done ex_root 0, AllDone 0] = concat (map (plan_log ex_fs ex_size) [ex_root]) @ [AllDone 0]"
    by simp
  with sizes show ?thesis
    by (simp add: ex_run_dry ex_iter_files)
qed

text \<open>
  C7 as stated fails for a session that is cancelled: with the flag set before the first
  file, the dry run of \<open>/inst\<close> enumerates three candidates and logs no planned line.
\<close>

theorem dry_run_stopped_plans_nothing:
  "iter_files ex_fs ex_root DEFAULT_PATTERNS = [f_jar, f_toml, f_png]
   \<and> worker ex_fs (\<lambda>k. 1 \<le> k) True 100 [ex_root] =
       (Completed,
        \<lparr>warmed_total = 0, warmed = 0, progressed = 0, progress_max = 3,
         logged = [Start ex_root, Done ex_root 0, AllDone 0], clock = 2\<rparr>)"
  by (simp add: run_defs)

text \<open>
  C1: an exception of \<open>warm_file\<close> is caught, logged and the loop goes on. But
  \<open>p.stat()\<close> in the sort key and \<open>fpath.stat()\<close> at the head of the loop body are
  outside the \<open>try\<close>: when \<open>config/b.toml\<close> has been deleted after it was enumerated,
  the exception ends the session after the line for the start of the target; no file is
  warmed and no summary is logged.
\<close>

theorem stat_failure_ends_session:
  "iter_files ex_fs_deleted ex_root DEFAULT_PATTERNS = [f_jar, f_toml, f_png]
   \<and> stat_size ex_fs_deleted f_toml = Inl FileNotFoundError
   \<and> worker ex_fs_deleted (\<lambda>k. False) False 1000 [ex_root] =
       (Raised FileNotFoundError,
        \<lparr>warmed_total = 0, warmed = 0, progressed = 0, progress_max = 3,
         logged = [Start ex_root], clock = 1\<rparr>)"
  by (simp add: run_defs ex_fs_deleted_def)

text \<open>
  What the \<open>try\<close> does cover: a read that fails in the middle of \<open>mods/A.jar\<close> is
  logged, the total is not changed by it, and the next files are warmed. When every
  \<open>stat\<close> succeeds, the session completes with its summary and the total is the sum of
  the bytes of the files warmed.
\<close>

lemma ex_run_bad_disk:
  "worker ex_fs_bad_disk (\<lambda>k. False) False 1000 [ex_root] =
     (Completed,
      \<lparr>warmed_total = 23, warmed = 23, progressed = 5, progress_max = 3,
       logged = [Start ex_root, FileError 1 f_jar OSError, Warmed 2 f_toml 3 3,
                 Warmed 3 f_png 20 23, Done ex_root 23, AllDone 23],
       clock = 4\<rparr>)"
  by (simp add: run_defs ex_fs_bad_disk_def)


lemma warm_files_no_raise:
  assumes "warm_files fs flag dry budget n files s = (r, s')"
    and "\<forall>(i, p) \<in> set files. \<not> isl (stat_size fs p)"
  shows "r = None"
  using assms
proof (induction files arbitrary: s)
  case Nil
  then show ?case by simp
next
  case (Cons x files)
  obtain i fpath where x: "x = (i, fpath)" by (cases x)
  from Cons.prems(2) have rest: "\<forall>(i, p) \<in> set files. \<not> isl (stat_size fs p)" by simp
  from Cons.prems(1) [unfolded x] show ?case
  proof (cases rule: warm_files_Cons_cases)
    case (stat_raised e)
    with Cons.prems(2) x show ?thesis by simp
  next
    case (plan sz)
    from Cons.IH [OF plan(4) rest] show ?thesis .
  next
    case (warmed sz rb)
    from Cons.IH [OF warmed(6) rest] show ?thesis .
  next
    case (failed sz e)
    from Cons.IH [OF failed(6) rest] show ?thesis .
  qed simp_all
qed

lemma warm_targets_no_raise:
  assumes "warm_targets fs flag dry budget targets s = (r, s')"
    and "\<forall>t \<in> set targets. \<forall>p \<in> set (iter_files fs t DEFAULT_PATTERNS). stat_size fs p = Inr (sz p)"
  shows "r = None"
  using assms
proof (induction targets arbitrary: s)
  case Nil
  then show ?case by simp
next
  case (Cons t ts)
  let ?files = "iter_files fs t DEFAULT_PATTERNS"
  let ?ranked = "sort_key (rank_key sz) ?files"
  let ?s2 = "s\<lparr>clock := Suc (clock s), logged := logged s @ [Start t], warmed := 0\<rparr>"
  from Cons.prems(2) have ok: "\<forall>p \<in> set ?files. stat_size fs p = Inr (sz p)" by simp
  have sf: "sort_files fs ?files = Inr ?ranked"
    by (rule sort_files_ok [OF ok])
  from Cons.prems(2) have rest: "\<forall>t \<in> set ts. \<forall>p \<in> set (iter_files fs t DEFAULT_PATTERNS).
      stat_size fs p = Inr (sz p)" by simp
  show ?case
  proof (cases "flag (clock s)")
    case True
    with Cons.prems(1) show ?thesis by (simp add: step_defs)
  next
    case False
    obtain r3 s3 where w: "warm_files fs flag dry budget (length ?ranked) (enumerate1 ?ranked) ?s2
        = (r3, s3)"
      by (cases "warm_files fs flag dry budget (length ?ranked) (enumerate1 ?ranked) ?s2")
    have "\<forall>(i, p) \<in> set (enumerate1 ?ranked). \<not> isl (stat_size fs p)"
      using ok by (auto dest: enumerate1_snd)
    from warm_files_no_raise [OF w this] have r3: "r3 = None" .
    with Cons.prems(1) False sf w
    have "warm_targets fs flag dry budget ts (s3\<lparr>logged := logged s3 @ [Done t (warmed s3)]\<rparr>)
        = (r, s')"
      by (simp add: step_defs)
    from Cons.IH [OF this rest] show ?thesis .
  qed
qed

lemma read_errors_are_recovered:
  assumes "worker fs flag dry budget targets = (out, s')"
    and "\<forall>t \<in> set targets. \<forall>p \<in> set (iter_files fs t DEFAULT_PATTERNS). stat_size fs p = Inr (sz p)"
  shows "out = Completed \<and> last (logged s') = AllDone (warmed_total s')
     \<and> warmed_total s' = bytes_logged (logged s')"
proof -
  let ?s0 = "\<lparr>warmed_total = 0, warmed = 0, progressed = 0,
      progress_max = max 1 (sum_list (map (\<lambda>t. length (iter_files fs t DEFAULT_PATTERNS)) targets)),
      logged = [], clock = 0\<rparr>"
  have "fst (warm_targets fs flag dry budget targets ?s0) = None"
    using warm_targets_no_raise [OF _ assms(2), of flag dry budget ?s0]
    by (cases "warm_targets fs flag dry budget targets ?s0") simp
  from worker_completed [OF this assms(1)]
  have "out = Completed" "last (logged s') = AllDone (warmed_total s')"
    by simp_all
  moreover have "warmed_total s' = bytes_logged (logged s')"
    by (rule worker_invariant [OF assms(1)])
       (simp_all add: bytes_logged_def warmings_append)
  ultimately show ?thesis by simp
qed

end
